theory Spec2Isabelle
  imports Main "HOL-Library.Char_ord" "HOL-Library.List_Lexorder" "HOL-Library.Product_Lexorder"
begin

section \<open>Data model\<close>

text \<open>
  A key is the pair \<open>(app_label, name)\<close> that \<open>build_current_graph\<close> passes to
  \<open>add_node\<close>.
\<close>

type_synonym key = "string \<times> string"

text \<open>
  The SQL payload of \<open>SqlItemNode\<close>. The comment in \<open>generate_changed_sql\<close> says that
  a side is a string or a list of 2-tuples \<open>(text, params)\<close>; the reverse side is tested
  for truth, so it may also be \<open>None\<close>. Parameters are a Python list or a Python tuple
  of values: the two are different Python values also when they hold the same items.
\<close>

datatype pyval = PyInt int | PyStr string

datatype params = ParamList "pyval list" | ParamTuple "pyval list"

datatype sql_payload = SqlNone | SqlText string | SqlList "(string \<times> params) list"

text \<open>\<open>SqlItemNode = namedtuple('SqlItemNode', ('sql', 'reverse_sql'))\<close>\<close>

record sql_item_node =
  sql :: sql_payload
  reverse_sql :: sql_payload

text \<open>
  The graph node \<open>Node(key)\<close> of the host framework, as far as \<open>graph.py\<close> and
  \<open>autodetector.py\<close> use it: its key and the two mutable sets \<open>children\<close> and
  \<open>parents\<close>. The sets hold node objects, which hash and compare by their key, and
  (after \<open>sql_deps.add(key)\<close>) plain keys; both are a key here.
\<close>

record node =
  node_key :: key
  children :: "key set"
  parents :: "key set"

text \<open>\<open>SqlStateGraph\<close>: two dicts and the list of pending dependency declarations.\<close>

record graph =
  nodes :: "key \<rightharpoonup> sql_item_node"
  node_map :: "key \<rightharpoonup> node"
  dependencies :: "(string \<times> key \<times> key) list"

text \<open>
  Exceptions as values. \<open>KeyError\<close> is what a dict lookup of an absent key raises,
  \<open>NodeNotFoundError\<close> carries the application label and the role named in its message
  and the node it is given. \<open>DuplicateKey\<close> and \<open>CyclicDependency\<close> are the
  error kinds the specification names; no function of \<open>graph.py\<close> or
  \<open>autodetector.py\<close> raises them. \<open>RecursionError\<close> is what Python raises when the
  depth of calls is exhausted, \<open>HostError\<close> any other exception of the host
  framework.
\<close>

datatype role = Child | Parent

datatype error =
    KeyError key
  | NodeNotFoundError string role key
  | DuplicateKey
  | CyclicDependency
  | RecursionError
  | HostError string

section \<open>The state graph (graph.py)\<close>

definition Node :: "key \<Rightarrow> node" where
  "Node k = \<lparr>node_key = k, children = {}, parents = {}\<rparr>"

definition add_child :: "key \<Rightarrow> node \<Rightarrow> node" where
  "add_child c n = n\<lparr>children := insert c (children n)\<rparr>"

definition add_parent :: "key \<Rightarrow> node \<Rightarrow> node" where
  "add_parent p n = n\<lparr>parents := insert p (parents n)\<rparr>"

definition SqlStateGraph :: graph where
  "SqlStateGraph = \<lparr>nodes = Map.empty, node_map = Map.empty, dependencies = []\<rparr>"

definition remove_node :: "key \<Rightarrow> graph \<Rightarrow> error + graph" where
  "remove_node k g =
     (if k \<in> dom (nodes g) \<and> k \<in> dom (node_map g)
      then Inr (g\<lparr>nodes := (nodes g)(k := None), node_map := (node_map g)(k := None)\<rparr>)
      else Inr g)"

definition add_node :: "key \<Rightarrow> sql_item_node \<Rightarrow> graph \<Rightarrow> error + graph" where
  "add_node k sql_item g =
     Inr (g\<lparr>node_map := (node_map g)(k \<mapsto> Node k), nodes := (nodes g)(k \<mapsto> sql_item)\<rparr>)"

definition add_lazy_dependency :: "string \<Rightarrow> key \<Rightarrow> key \<Rightarrow> graph \<Rightarrow> error + graph" where
  "add_lazy_dependency app_label child parent g =
     Inr (g\<lparr>dependencies := dependencies g @ [(app_label, child, parent)]\<rparr>)"

text \<open>
  One round of the loop of \<open>resolve_dependencies\<close>. The two checks read \<open>nodes\<close>, the
  two links read \<open>node_map\<close>; the second link looks the parent up after the first
  link is stored, as the two statements of the source do.
\<close>

definition resolve_step :: "string \<times> key \<times> key \<Rightarrow> graph \<Rightarrow> error + graph" where
  "resolve_step d g =
     (case d of (app_label, child, parent) \<Rightarrow>
        if child \<notin> dom (nodes g) then Inl (NodeNotFoundError app_label Child child)
        else if parent \<notin> dom (nodes g) then Inl (NodeNotFoundError app_label Parent parent)
        else (case node_map g child of
                None \<Rightarrow> Inl (KeyError child)
              | Some cn \<Rightarrow>
                  (case node_map g parent of
                     None \<Rightarrow> Inl (KeyError parent)
                   | Some _ \<Rightarrow>
                       let g1 = g\<lparr>node_map := (node_map g)(child \<mapsto> add_parent parent cn)\<rparr>
                       in (case node_map g1 parent of
                             None \<Rightarrow> Inl (KeyError parent)
                           | Some pn \<Rightarrow>
                               Inr (g1\<lparr>node_map :=
                                      (node_map g1)(parent \<mapsto> add_child child pn)\<rparr>)))))"

text \<open>A \<open>for\<close> loop whose body may raise: the first exception ends the loop.\<close>

fun for_loop :: "('a \<Rightarrow> 's \<Rightarrow> error + 's) \<Rightarrow> 'a list \<Rightarrow> 's \<Rightarrow> error + 's" where
  "for_loop body [] s = Inr s"
| "for_loop body (x # xs) s =
     (case body x s of Inl e \<Rightarrow> Inl e | Inr s' \<Rightarrow> for_loop body xs s')"

definition resolve_dependencies :: "graph \<Rightarrow> error + graph" where
  "resolve_dependencies g = for_loop resolve_step (dependencies g) g"

section \<open>Change detection (autodetector.py, lines 39 to 56)\<close>

text \<open>
  Python's \<open>==\<close> on the payloads. Strings compare by their text, lists item by item,
  a 2-tuple by its two components; a list never equals a tuple, a string never equals a
  list, and \<open>None\<close> equals only \<open>None\<close>.
\<close>

fun py_eq_params :: "params \<Rightarrow> params \<Rightarrow> bool" where
  "py_eq_params (ParamList xs) (ParamList ys) = (xs = ys)"
| "py_eq_params (ParamTuple xs) (ParamTuple ys) = (xs = ys)"
| "py_eq_params (ParamList xs) (ParamTuple ys) = False"
| "py_eq_params (ParamTuple xs) (ParamList ys) = False"

fun py_eq_pair :: "string \<times> params \<Rightarrow> string \<times> params \<Rightarrow> bool" where
  "py_eq_pair (s, p) (t, q) = (s = t \<and> py_eq_params p q)"

fun py_eq :: "sql_payload \<Rightarrow> sql_payload \<Rightarrow> bool" where
  "py_eq SqlNone SqlNone = True"
| "py_eq (SqlText s) (SqlText t) = (s = t)"
| "py_eq (SqlList xs) (SqlList ys) = list_all2 py_eq_pair xs ys"
| "py_eq _ _ = False"

text \<open>Python's truth value of a payload: \<open>None\<close>, \<open>''\<close> and \<open>[]\<close> are false.\<close>

fun truthy :: "sql_payload \<Rightarrow> bool" where
  "truthy SqlNone = False"
| "truthy (SqlText s) = (s \<noteq> [])"
| "truthy (SqlList xs) = (xs \<noteq> [])"

text \<open>
  The loop over \<open>from_keys & to_keys\<close>: a key is added to \<open>changed_keys\<close> unless the
  \<open>sql\<close> attributes of its two items are equal.
\<close>

definition changed_keys_of :: "graph \<Rightarrow> graph \<Rightarrow> key set" where
  "changed_keys_of f t =
     {k \<in> dom (nodes f) \<inter> dom (nodes t).
        \<not> py_eq (sql (the (nodes f k))) (sql (the (nodes t k)))}"

text \<open>
  The equality of constructs in the words of the specification, for comparison with
  the loop above: forward and reverse payloads both count, and parameter lists are
  compared by the values they iterate over, whatever the sequence type.
\<close>

fun param_items :: "params \<Rightarrow> pyval list" where
  "param_items (ParamList xs) = xs"
| "param_items (ParamTuple xs) = xs"

fun spec_eq_pair :: "string \<times> params \<Rightarrow> string \<times> params \<Rightarrow> bool" where
  "spec_eq_pair (s, p) (t, q) = (s = t \<and> param_items p = param_items q)"

fun spec_payload_eq :: "sql_payload \<Rightarrow> sql_payload \<Rightarrow> bool" where
  "spec_payload_eq SqlNone SqlNone = True"
| "spec_payload_eq (SqlText s) (SqlText t) = (s = t)"
| "spec_payload_eq (SqlList xs) (SqlList ys) = list_all2 spec_eq_pair xs ys"
| "spec_payload_eq _ _ = False"

definition spec_construct_eq :: "sql_item_node \<Rightarrow> sql_item_node \<Rightarrow> bool" where
  "spec_construct_eq a b =
     (spec_payload_eq (sql a) (sql b) \<and> spec_payload_eq (reverse_sql a) (reverse_sql b))"

section \<open>Ordering (sort_sql_changes)\<close>

text \<open>
  \<open>next((i for i, k in enumerate(result_keys) if k in ancs), len(result_keys))\<close>:
  the index of the first item that satisfies the test, the length when there is none.
\<close>

fun first_pos :: "('a \<Rightarrow> bool) \<Rightarrow> 'a list \<Rightarrow> nat" where
  "first_pos P [] = 0"
| "first_pos P (x # xs) = (if P x then 0 else Suc (first_pos P xs))"

text \<open>\<open>xs.insert(i, x)\<close> for an index that is not negative.\<close>

definition list_insert :: "nat \<Rightarrow> 'a \<Rightarrow> 'a list \<Rightarrow> 'a list" where
  "list_insert i x xs = take i xs @ x # drop i xs"

text \<open>
  The inner loop over the descendants. \<open>all_keys\<close> is the union computed once before
  the outer loop; \<open>pos\<close> is the index computed for the key of the outer loop.
\<close>

fun cascade :: "key set \<Rightarrow> nat \<Rightarrow> key list \<Rightarrow> key list \<times> key set \<Rightarrow> key list \<times> key set" where
  "cascade all_keys pos [] st = st"
| "cascade all_keys pos (d # ds) (result_keys, changed_keys) =
     (if d \<notin> all_keys \<and> d \<notin> set result_keys
      then cascade all_keys pos ds (list_insert pos d result_keys, insert d changed_keys)
      else cascade all_keys pos ds (result_keys, changed_keys))"

text \<open>
  One round of the outer loop. The traversals \<open>node.ancestors()\<close> and
  \<open>node.descendants()\<close> belong to the host framework's \<open>Node\<close>, which is not part
  of this code: they are the parameters \<open>anc\<close> and \<open>desc\<close>, each giving for a key
  the list its node's traversal returns, or the exception it raises. The source drops
  the last item of either list with \<open>[:-1]\<close>.
\<close>

definition sort_body ::
  "(key \<Rightarrow> error + key list) \<Rightarrow> (key \<Rightarrow> error + key list) \<Rightarrow> graph \<Rightarrow> key set \<Rightarrow>
   key \<Rightarrow> key list \<times> key set \<Rightarrow> error + key list \<times> key set" where
  "sort_body anc desc to_graph all_keys k st =
     (case st of (result_keys, changed_keys) \<Rightarrow>
        (case node_map to_graph k of
           None \<Rightarrow> Inl (KeyError k)
         | Some _ \<Rightarrow>
             (case anc k of
                Inl e \<Rightarrow> Inl e
              | Inr al \<Rightarrow>
                  let ancs = rev (butlast al);
                      pos = first_pos (\<lambda>x. x \<in> set ancs) result_keys;
                      result1 = list_insert pos k result_keys
                  in if k \<in> changed_keys
                     then (case desc k of
                             Inl e \<Rightarrow> Inl e
                           | Inr dl \<Rightarrow>
                               Inr (cascade all_keys pos (rev (butlast dl)) (result1, changed_keys)))
                     else Inr (result1, changed_keys))))"

text \<open>
  \<open>sort_sql_changes\<close>. Python iterates the set \<open>all_keys\<close> in an order of its own
  choosing: \<open>order\<close> is that order. The function returns the list and the set
  \<open>changed_keys\<close> as the loop has left it, since the caller reads the same set object
  afterwards.
\<close>

definition sort_sql_changes ::
  "(key \<Rightarrow> error + key list) \<Rightarrow> (key \<Rightarrow> error + key list) \<Rightarrow> graph \<Rightarrow> key list \<Rightarrow>
   key set \<Rightarrow> key set \<Rightarrow> error + key list \<times> key set" where
  "sort_sql_changes anc desc to_graph order new_keys changed_keys =
     (let all_keys = new_keys \<union> changed_keys
      in for_loop (sort_body anc desc to_graph all_keys) order ([], changed_keys))"

text \<open>
  The position the specification gives a cascaded descendant \<open>d\<close>: the one of the
  earliest-ancestor rule applied to \<open>d\<close> itself.
\<close>

definition spec_descendant_pos :: "(key \<Rightarrow> error + key list) \<Rightarrow> key \<Rightarrow> key list \<Rightarrow> nat option" where
  "spec_descendant_pos anc d result_keys =
     (case anc d of
        Inl _ \<Rightarrow> None
      | Inr al \<Rightarrow> Some (first_pos (\<lambda>x. x \<in> set (butlast al)) result_keys))"

text \<open>
  The dependency relation of a snapshot, child to parent, and what it is for it to
  have a cycle.
\<close>

definition parent_edges :: "graph \<Rightarrow> (key \<times> key) set" where
  "parent_edges g = {(c, p). \<exists>n. node_map g c = Some n \<and> p \<in> parents n}"

definition cyclic :: "graph \<Rightarrow> bool" where
  "cyclic g = (\<exists>k. (k, k) \<in> (parent_edges g)\<^sup>+)"

section \<open>The traversals of the graph node\<close>

text \<open>The results of a list of calls: the first exception, or all the values.\<close>

fun collect :: "(error + 'a) list \<Rightarrow> error + 'a list" where
  "collect [] = Inr []"
| "collect (x # xs) =
     (case x of
        Inl e \<Rightarrow> Inl e
      | Inr v \<Rightarrow> (case collect xs of Inl e \<Rightarrow> Inl e | Inr vs \<Rightarrow> Inr (v # vs)))"

text \<open>The items of a list, each at its first place.\<close>

definition first_occurrences :: "'a list \<Rightarrow> 'a list" where
  "first_occurrences xs = rev (remdups (rev xs))"

text \<open>
  Modelled from the spec: the traversals \<open>ancestors()\<close> and \<open>descendants()\<close> of the
  host's graph node, which is not among the sources. Section 4.1 of the specification
  has them as a plain depth-first reachability traversal over the parent edges or the
  child edges, with cyclic input an unchecked precondition: no visited set. A node's
  traversal calls the traversal of each neighbour (in the order of the keys) and
  returns every key that was reached once, the more distant ones first and the node's
  own key last. \<open>budget\<close> is the depth of calls that is left; a call with none left
  raises \<open>RecursionError\<close>, the overflow of the call budget of section 7. The
  specification lists the own key first for \<open>descendants()\<close>; the source drops the
  last item of either list to leave the own key out, so it is last in both here.
  An edge of a graph that the class has built leads to a key with a node; for a key
  without one the lookup raises \<open>KeyError\<close>.
\<close>

fun traverse :: "(node \<Rightarrow> key set) \<Rightarrow> nat \<Rightarrow> graph \<Rightarrow> key \<Rightarrow> error + key list" where
  "traverse edges 0 g k = Inl RecursionError"
| "traverse edges (Suc budget) g k =
     (case node_map g k of
        None \<Rightarrow> Inl (KeyError k)
      | Some nd \<Rightarrow>
          (case collect (map (\<lambda>next. traverse edges budget g next) (sorted_list_of_set (edges nd))) of
             Inl e \<Rightarrow> Inl e
           | Inr ls \<Rightarrow> Inr (first_occurrences (concat ls @ [k]))))"

definition ancestors :: "nat \<Rightarrow> graph \<Rightarrow> key \<Rightarrow> error + key list" where
  "ancestors budget g k = traverse parents budget g k"

definition descendants :: "nat \<Rightarrow> graph \<Rightarrow> key \<Rightarrow> error + key list" where
  "descendants budget g k = traverse children budget g k"

section \<open>Plan emission (generate_changed_sql)\<close>

datatype op_class = ReverseAlterSQL | AlterSQL | CreateSQL | DeleteSQL

text \<open>
  Modelled from the spec: the step classes of \<open>migrate_sql.operations\<close> are not among
  the sources. A step is a plan step of the specification: its action tag, the name,
  the forward and the reverse payload and the \<open>dependencies\<close> argument, as the calls in
  \<open>autodetector.py\<close> pass them, and the identity of the object, \<open>oid\<close>, which is the
  number of steps constructed before it.
\<close>

record operation =
  oid :: nat
  cls :: op_class
  op_name :: string
  op_sql :: sql_payload
  op_reverse_sql :: sql_payload
  op_dependencies :: "key set option"

text \<open>
  Modelled from the spec: \<open>==\<close> on two steps. The step classes are not among the
  sources, so whether they define an equality of their own is not known from them; the
  specification says that a step is compared by reference identity, which is also
  what Python does for a class that defines none. Two steps are the same object when
  their \<open>oid\<close> is the same.
\<close>

definition same_object :: "operation \<Rightarrow> operation \<Rightarrow> bool" where
  "same_object a b = (oid a = oid b)"

text \<open>
  A dependency marker is a 4-tuple. Its second component is the object \<open>SQL_BLOB\<close> in
  the markers built here and something else (a model name) in the host's own; its
  fourth is \<open>None\<close> or a step in the markers built here.
\<close>

datatype dep_domain = SQL_BLOB | HostDomain string

datatype dep_info = InfoNone | InfoOp operation | InfoHost string

type_synonym dependency = "string \<times> dep_domain \<times> string \<times> dep_info"

text \<open>
  The autodetector, as far as \<open>generate_changed_sql\<close> reads and writes it: the two
  graphs, the calls of the host's \<open>add_operation\<close> in their order (application label,
  step, dependency markers), and the number of steps constructed so far.
\<close>

record autodetector =
  from_sql_graph :: graph
  to_sql_graph :: graph
  generated_operations :: "(string \<times> operation \<times> dependency set) list"
  next_oid :: nat

definition add_operation :: "string \<Rightarrow> operation \<Rightarrow> dependency set \<Rightarrow> autodetector \<Rightarrow> autodetector" where
  "add_operation app_label operation deps ad =
     ad\<lparr>generated_operations := generated_operations ad @ [(app_label, operation, deps)]\<rparr>"

text \<open>
  The loop \<open>for sql_dep in sql_deps\<close>: one marker for each member of the set. The list
  \<open>deps\<close> it builds is in the order Python iterates the set; it is the set of its
  items here.
\<close>

definition make_deps :: "(key \<rightharpoonup> operation) \<Rightarrow> key set \<Rightarrow> dependency set" where
  "make_deps latest_operations sql_deps =
     (\<lambda>sql_dep. (fst sql_dep, SQL_BLOB, snd sql_dep,
        case latest_operations sql_dep of None \<Rightarrow> InfoNone | Some operation \<Rightarrow> InfoOp operation))
     ` sql_deps"

text \<open>
  One round of the first loop (lines 62 to 82). \<open>sql_deps\<close> is the \<open>children\<close> set of
  the node in the \<open>from\<close> graph, not a copy of it: \<open>sql_deps.add(key)\<close> changes the node.
\<close>

definition teardown_body ::
  "key set \<Rightarrow> key \<Rightarrow> autodetector \<times> (key \<rightharpoonup> operation) \<Rightarrow>
   error + autodetector \<times> (key \<rightharpoonup> operation)" where
  "teardown_body changed_keys k st =
     (case st of (ad, latest_operations) \<Rightarrow>
        if k \<notin> changed_keys then Inr (ad, latest_operations)
        else (case nodes (from_sql_graph ad) k of
                None \<Rightarrow> Inl (KeyError k)
              | Some old_node \<Rightarrow>
                  let operation = \<lparr>oid = next_oid ad, cls = ReverseAlterSQL, op_name = snd k,
                                   op_sql = reverse_sql old_node, op_reverse_sql = sql old_node,
                                   op_dependencies = None\<rparr>;
                      ad1 = ad\<lparr>next_oid := Suc (next_oid ad)\<rparr>
                  in (case node_map (from_sql_graph ad1) k of
                        None \<Rightarrow> Inl (KeyError k)
                      | Some n \<Rightarrow>
                          let sql_deps = insert k (children n);
                              g = from_sql_graph ad1;
                              ad2 = ad1\<lparr>from_sql_graph :=
                                      g\<lparr>node_map := (node_map g)(k \<mapsto> n\<lparr>children := sql_deps\<rparr>)\<rparr>\<rparr>;
                              deps = make_deps latest_operations sql_deps;
                              ad3 = (if truthy (reverse_sql old_node)
                                     then add_operation (fst k) operation deps ad2 else ad2)
                          in Inr (ad3, latest_operations(k \<mapsto> operation)))))"

text \<open>
  One round of the second loop (lines 84 to 102). The step gets a copy of the
  \<open>parents\<close> set, taken before \<open>sql_deps.add(key)\<close> changes the node in the \<open>to\<close> graph.
\<close>

definition rebuild_body ::
  "key set \<Rightarrow> key \<Rightarrow> autodetector \<times> (key \<rightharpoonup> operation) \<Rightarrow>
   error + autodetector \<times> (key \<rightharpoonup> operation)" where
  "rebuild_body changed_keys k st =
     (case st of (ad, latest_operations) \<Rightarrow>
        (case nodes (to_sql_graph ad) k of
           None \<Rightarrow> Inl (KeyError k)
         | Some new_node \<Rightarrow>
             let operation_cls = (if k \<in> changed_keys then AlterSQL else CreateSQL)
             in (case node_map (to_sql_graph ad) k of
                   None \<Rightarrow> Inl (KeyError k)
                 | Some n \<Rightarrow>
                     let operation = \<lparr>oid = next_oid ad, cls = operation_cls, op_name = snd k,
                                      op_sql = sql new_node, op_reverse_sql = reverse_sql new_node,
                                      op_dependencies = Some (parents n)\<rparr>;
                         sql_deps = insert k (parents n);
                         g = to_sql_graph ad;
                         ad1 = ad\<lparr>next_oid := Suc (next_oid ad),
                                  to_sql_graph :=
                                    g\<lparr>node_map := (node_map g)(k \<mapsto> n\<lparr>parents := sql_deps\<rparr>)\<rparr>\<rparr>;
                         deps = make_deps latest_operations sql_deps
                     in Inr (add_operation (fst k) operation deps ad1,
                             latest_operations(k \<mapsto> operation)))))"

text \<open>One round of the third loop (lines 104 to 110); \<open>add_operation\<close> gets no markers.\<close>

definition delete_body :: "key \<Rightarrow> autodetector \<Rightarrow> error + autodetector" where
  "delete_body k ad =
     (case nodes (from_sql_graph ad) k of
        None \<Rightarrow> Inl (KeyError k)
      | Some old_node \<Rightarrow>
          let operation = \<lparr>oid = next_oid ad, cls = DeleteSQL, op_name = snd k,
                           op_sql = reverse_sql old_node, op_reverse_sql = sql old_node,
                           op_dependencies = None\<rparr>
          in Inr (add_operation (fst k) operation {} (ad\<lparr>next_oid := Suc (next_oid ad)\<rparr>)))"

text \<open>
  \<open>generate_changed_sql\<close>. \<open>order\<close> is the order in which Python iterates
  \<open>all_keys\<close> inside \<open>sort_sql_changes\<close>, \<open>deleted_order\<close> the one in which it iterates
  \<open>deleted_keys\<close>.
\<close>

definition generate_changed_sql ::
  "(key \<Rightarrow> error + key list) \<Rightarrow> (key \<Rightarrow> error + key list) \<Rightarrow> key list \<Rightarrow> key list \<Rightarrow>
   autodetector \<Rightarrow> error + autodetector" where
  "generate_changed_sql anc desc order deleted_order ad =
     (let from_keys = dom (nodes (from_sql_graph ad));
          to_keys = dom (nodes (to_sql_graph ad));
          new_keys = to_keys - from_keys;
          changed_keys = changed_keys_of (from_sql_graph ad) (to_sql_graph ad)
      in (case sort_sql_changes anc desc (to_sql_graph ad) order new_keys changed_keys of
            Inl e \<Rightarrow> Inl e
          | Inr (keys, changed_keys') \<Rightarrow>
              (case for_loop (teardown_body changed_keys') keys (ad, Map.empty) of
                 Inl e \<Rightarrow> Inl e
               | Inr st1 \<Rightarrow>
                   (case for_loop (rebuild_body changed_keys') (rev keys) st1 of
                      Inl e \<Rightarrow> Inl e
                    | Inr (ad2, _) \<Rightarrow> for_loop delete_body deleted_order ad2))))"

text \<open>
  \<open>check_dependency\<close>. \<open>super\<close> is the method of the host's autodetector that the
  last line calls. \<open>dependency[3] == operation\<close> is false for \<open>None\<close> and for a value
  that is no step.
\<close>

fun info_eq :: "dep_info \<Rightarrow> operation \<Rightarrow> bool" where
  "info_eq (InfoOp recorded) operation = same_object recorded operation"
| "info_eq InfoNone operation = False"
| "info_eq (InfoHost _) operation = False"

fun isinstance_SQLBlob :: "dep_domain \<Rightarrow> bool" where
  "isinstance_SQLBlob SQL_BLOB = True"
| "isinstance_SQLBlob (HostDomain _) = False"

definition check_dependency ::
  "(operation \<Rightarrow> dependency \<Rightarrow> bool) \<Rightarrow> operation \<Rightarrow> dependency \<Rightarrow> bool" where
  "check_dependency super operation dependency =
     (case dependency of (app_label, domain, name, info) \<Rightarrow>
        if isinstance_SQLBlob domain then info_eq info operation
        else super operation dependency)"

section \<open>Notions used in the statements\<close>

text \<open>
  The descendants that one round of the outer loop of \<open>sort_sql_changes\<close> inserts for
  the key \<open>k\<close>, from left to right as they stand in the result afterwards: those
  items of \<open>descendants()[:-1]\<close> that are neither in \<open>all_keys\<close> nor in the result
  nor \<open>k\<close> itself, each once.
\<close>

definition cascaded :: "key set \<Rightarrow> key \<Rightarrow> key list \<Rightarrow> key list \<Rightarrow> key list" where
  "cascaded A k r dl = remdups [d \<leftarrow> butlast dl. d \<notin> A \<and> d \<notin> set r \<and> d \<noteq> k]"

text \<open>What a call of \<open>add_operation\<close> shows of its step: label, class, name and payloads.\<close>

definition step_view ::
  "string \<times> operation \<times> dependency set \<Rightarrow> string \<times> op_class \<times> string \<times> sql_payload \<times> sql_payload" where
  "step_view e = (case e of (app_label, operation, deps) \<Rightarrow>
     (app_label, cls operation, op_name operation, op_sql operation, op_reverse_sql operation))"

text \<open>
  \<open>operation\<close> is a \<open>ReverseAlterSQL\<close> step for the key \<open>k\<close> of the graph \<open>f\<close>: its
  forward payload is the reverse statement stored in \<open>f\<close>, its reverse payload the
  forward statement stored in \<open>f\<close>.
\<close>

definition reverse_alter_of :: "graph \<Rightarrow> key \<Rightarrow> operation \<Rightarrow> bool" where
  "reverse_alter_of f k operation =
     (\<exists>old_node. nodes f k = Some old_node \<and> cls operation = ReverseAlterSQL \<and>
        op_name operation = snd k \<and> op_sql operation = reverse_sql old_node \<and>
        op_reverse_sql operation = sql old_node)"

text \<open>
  \<open>g'\<close> is \<open>g\<close> but for nodes that have been added to their own \<open>parents\<close> or
  \<open>children\<close>: the same constructs, declarations and node keys, and for every
  node the old parents and children and at most its own key more in either set.
\<close>

definition own_key_added :: "graph \<Rightarrow> graph \<Rightarrow> bool" where
  "own_key_added g g' =
     (nodes g' = nodes g \<and> dependencies g' = dependencies g \<and>
      dom (node_map g') = dom (node_map g) \<and>
      (\<forall>k n. node_map g k = Some n \<longrightarrow>
         (\<exists>n'. node_map g' k = Some n' \<and> node_key n' = node_key n \<and>
            parents n \<subseteq> parents n' \<and> parents n' \<subseteq> insert k (parents n) \<and>
            children n \<subseteq> children n' \<and> children n' \<subseteq> insert k (children n))))"

text \<open>
  A run of the ordering over the keys of a list. Each key \<open>k\<close> in turn, with \<open>r\<close> the
  result so far and \<open>as\<close> the proper ancestors of \<open>k\<close>, goes to an index \<open>pos\<close> of \<open>r\<close>
  such that no item before \<open>pos\<close> is an ancestor of \<open>k\<close> and the item at \<open>pos\<close>, if
  there is one, is an ancestor of \<open>k\<close>: right before the first ancestor that is
  placed, or at the end. When \<open>k\<close> is in \<open>changed_keys\<close>, its descendants \<open>ds\<close> that
  are neither in \<open>all_keys\<close> nor in \<open>r\<close> join \<open>changed_keys\<close> and stand, where the
  source puts them, in the order of \<open>ds\<close> right before \<open>k\<close>. The last state is the
  outcome.
\<close>

fun ordering_steps ::
  "(key \<Rightarrow> error + key list) \<Rightarrow> (key \<Rightarrow> error + key list) \<Rightarrow> key set \<Rightarrow> key list \<Rightarrow>
   key list \<times> key set \<Rightarrow> key list \<times> key set \<Rightarrow> bool" where
  "ordering_steps anc desc all_keys [] s s' = (s = s')"
| "ordering_steps anc desc all_keys (k # ks) (r, ch) s' =
     (\<exists>as F pos.
        anc k = Inr (as @ [k]) \<and> k \<notin> set r \<and>
        pos \<le> length r \<and> (\<forall>x\<in>set (take pos r). x \<notin> set as) \<and>
        (pos < length r \<longrightarrow> r ! pos \<in> set as) \<and>
        (if k \<in> ch
         then \<exists>ds. desc k = Inr (ds @ [k]) \<and>
                F = remdups [d \<leftarrow> ds. d \<notin> all_keys \<and> d \<notin> set r]
         else F = []) \<and>
        ordering_steps anc desc all_keys ks (take pos r @ F @ k # drop pos r, ch \<union> set F) s')"

text \<open>
  The lookups and traversals that the ordering makes for the key \<open>k\<close> all return: its
  node, its ancestors and, when it is changed, its descendants.
\<close>

definition traversals_return ::
  "(key \<Rightarrow> error + key list) \<Rightarrow> (key \<Rightarrow> error + key list) \<Rightarrow> graph \<Rightarrow> key set \<Rightarrow> key \<Rightarrow> bool" where
  "traversals_return anc desc g changed_keys k =
     (node_map g k \<noteq> None \<and> (\<exists>al. anc k = Inr al) \<and>
      (k \<in> changed_keys \<longrightarrow> (\<exists>dl. desc k = Inr dl)))"

text \<open>
  The edges that a traversal follows, the keys from which it comes to a cycle, and
  the graphs in which every edge leads to a node and every node has finitely many
  edges.
\<close>

definition edge_rel :: "(node \<Rightarrow> key set) \<Rightarrow> graph \<Rightarrow> (key \<times> key) set" where
  "edge_rel edges g = {(a, b). \<exists>nd. node_map g a = Some nd \<and> b \<in> edges nd}"

definition reaches_cycle :: "(node \<Rightarrow> key set) \<Rightarrow> graph \<Rightarrow> key \<Rightarrow> bool" where
  "reaches_cycle edges g k = (\<exists>c. (k, c) \<in> (edge_rel edges g)\<^sup>* \<and> (c, c) \<in> (edge_rel edges g)\<^sup>+)"

definition edges_closed :: "(node \<Rightarrow> key set) \<Rightarrow> graph \<Rightarrow> bool" where
  "edges_closed edges g =
     (\<forall>k nd. node_map g k = Some nd \<longrightarrow> finite (edges nd) \<and> edges nd \<subseteq> dom (node_map g))"

section \<open>Concrete snapshots\<close>

text \<open>The keys of the test project.\<close>

definition top_books :: key where "top_books = (''test_app'', ''top_books'')"

definition top_authors :: key where "top_authors = (''test_app'', ''top_authors'')"

definition top_sales :: key where "top_sales = (''test_app2'', ''top_sales'')"

definition top_narrations :: key where "top_narrations = (''test_app'', ''top_narrations'')"

text \<open>
  Two snapshots with the same keys. \<open>top_books\<close> differs in its reverse statement
  only; \<open>top_authors\<close> has the parameter \<open>5\<close> in a list on one side and in a tuple
  on the other.
\<close>

definition c1_from :: graph where
  "c1_from = \<lparr>nodes = [top_books \<mapsto> \<lparr>sql = SqlText ''F'', reverse_sql = SqlText ''R1''\<rparr>,
                        top_authors \<mapsto> \<lparr>sql = SqlList [(''Q'', ParamList [PyInt 5])], reverse_sql = SqlText ''R''\<rparr>],
              node_map = [top_books \<mapsto> Node top_books, top_authors \<mapsto> Node top_authors],
              dependencies = []\<rparr>"

definition c1_to :: graph where
  "c1_to = \<lparr>nodes = [top_books \<mapsto> \<lparr>sql = SqlText ''F'', reverse_sql = SqlText ''R2''\<rparr>,
                      top_authors \<mapsto> \<lparr>sql = SqlList [(''Q'', ParamTuple [PyInt 5])], reverse_sql = SqlText ''R''\<rparr>],
              node_map = [top_books \<mapsto> Node top_books, top_authors \<mapsto> Node top_authors],
              dependencies = []\<rparr>"

text \<open>
  The change of \<open>test_migration_change\<close>: one construct, no dependencies, both
  statements replaced. A node without edges is its only ancestor and its only
  descendant.
\<close>

definition c2_from :: graph where
  "c2_from = \<lparr>nodes = [top_books \<mapsto> \<lparr>sql = SqlText ''F1'', reverse_sql = SqlText ''R1''\<rparr>],
              node_map = [top_books \<mapsto> Node top_books], dependencies = []\<rparr>"

definition c2_to :: graph where
  "c2_to = \<lparr>nodes = [top_books \<mapsto> \<lparr>sql = SqlText ''F2'', reverse_sql = SqlText ''R2''\<rparr>],
            node_map = [top_books \<mapsto> Node top_books], dependencies = []\<rparr>"

definition c2_autodetector :: autodetector where
  "c2_autodetector = \<lparr>from_sql_graph = c2_from, to_sql_graph = c2_to,
                       generated_operations = [], next_oid = 0\<rparr>"

definition only_self :: "key \<Rightarrow> error + key list" where
  "only_self k = Inr [k]"

text \<open>
  A \<open>to\<close> graph in which \<open>top_narrations\<close> depends on \<open>top_sales\<close> and on
  \<open>top_books\<close>, with the traversal lists of its three nodes (each ends with the node's
  own key).
\<close>

definition c3_to :: graph where
  "c3_to = \<lparr>nodes = [top_sales \<mapsto> \<lparr>sql = SqlText ''S1'', reverse_sql = SqlText ''DS''\<rparr>,
                      top_books \<mapsto> \<lparr>sql = SqlText ''B2'', reverse_sql = SqlText ''DB''\<rparr>,
                      top_narrations \<mapsto> \<lparr>sql = SqlText ''N1'', reverse_sql = SqlText ''DN''\<rparr>],
            node_map = [top_sales \<mapsto> \<lparr>node_key = top_sales, children = {top_narrations}, parents = {}\<rparr>,
                        top_books \<mapsto> \<lparr>node_key = top_books, children = {top_narrations}, parents = {}\<rparr>,
                        top_narrations \<mapsto> \<lparr>node_key = top_narrations, children = {},
                                              parents = {top_sales, top_books}\<rparr>],
            dependencies = [(''test_app'', top_narrations, top_sales),
                            (''test_app'', top_narrations, top_books)]\<rparr>"

definition c3_anc :: "key \<Rightarrow> error + key list" where
  "c3_anc k = (if k = top_narrations then Inr [top_sales, top_books, top_narrations] else Inr [k])"

definition c3_desc :: "key \<Rightarrow> error + key list" where
  "c3_desc k = (if k = top_narrations then Inr [k] else Inr [top_narrations, k])"

text \<open>
  The snapshot before \<open>c3_to\<close>: \<open>top_books\<close> with its old statement,
  \<open>top_narrations\<close> with the statement it keeps, depending on \<open>top_books\<close> only, and
  no \<open>top_sales\<close>.
\<close>

definition c3_from :: graph where
  "c3_from = \<lparr>nodes = [top_books \<mapsto> \<lparr>sql = SqlText ''B1'', reverse_sql = SqlText ''DB''\<rparr>,
                        top_narrations \<mapsto> \<lparr>sql = SqlText ''N1'', reverse_sql = SqlText ''DN''\<rparr>],
              node_map = [top_books \<mapsto> \<lparr>node_key = top_books, children = {top_narrations}, parents = {}\<rparr>,
                          top_narrations \<mapsto> \<lparr>node_key = top_narrations, children = {},
                                                parents = {top_books}\<rparr>],
              dependencies = [(''test_app'', top_narrations, top_books)]\<rparr>"

definition c3_autodetector :: autodetector where
  "c3_autodetector = \<lparr>from_sql_graph = c3_from, to_sql_graph = c3_to,
                       generated_operations = [], next_oid = 0\<rparr>"

text \<open>
  A \<open>to\<close> graph in which \<open>top_narrations\<close> depends on \<open>top_sales\<close> and on
  \<open>top_books\<close> and \<open>top_authors\<close> on \<open>top_books\<close>, with the traversal lists of its four
  nodes.
\<close>

definition c4_to :: graph where
  "c4_to = \<lparr>nodes = [top_sales \<mapsto> \<lparr>sql = SqlText ''S1'', reverse_sql = SqlText ''DS''\<rparr>,
                      top_books \<mapsto> \<lparr>sql = SqlText ''B2'', reverse_sql = SqlText ''DB''\<rparr>,
                      top_narrations \<mapsto> \<lparr>sql = SqlText ''N1'', reverse_sql = SqlText ''DN''\<rparr>,
                      top_authors \<mapsto> \<lparr>sql = SqlText ''A1'', reverse_sql = SqlText ''DA''\<rparr>],
            node_map = [top_sales \<mapsto> \<lparr>node_key = top_sales, children = {top_narrations}, parents = {}\<rparr>,
                        top_books \<mapsto> \<lparr>node_key = top_books, children = {top_narrations, top_authors},
                                         parents = {}\<rparr>,
                        top_narrations \<mapsto> \<lparr>node_key = top_narrations, children = {},
                                              parents = {top_sales, top_books}\<rparr>,
                        top_authors \<mapsto> \<lparr>node_key = top_authors, children = {}, parents = {top_books}\<rparr>],
            dependencies = [(''test_app'', top_narrations, top_sales),
                            (''test_app'', top_narrations, top_books),
                            (''test_app'', top_authors, top_books)]\<rparr>"

definition c4_anc :: "key \<Rightarrow> error + key list" where
  "c4_anc k = (if k = top_narrations then Inr [top_sales, top_books, top_narrations]
               else if k = top_authors then Inr [top_books, top_authors] else Inr [k])"

definition c4_desc :: "key \<Rightarrow> error + key list" where
  "c4_desc k = (if k = top_books then Inr [top_narrations, top_authors, top_books]
                else if k = top_sales then Inr [top_narrations, top_sales] else Inr [k])"

text \<open>
  A \<open>from\<close> graph with two constructs; the reverse statement of \<open>top_authors\<close> is the
  empty string.
\<close>

definition c5_from :: graph where
  "c5_from = \<lparr>nodes = [top_books \<mapsto> \<lparr>sql = SqlText ''F1'', reverse_sql = SqlText ''R1''\<rparr>,
                        top_authors \<mapsto> \<lparr>sql = SqlText ''A1'', reverse_sql = SqlText ''''\<rparr>],
              node_map = [top_books \<mapsto> Node top_books, top_authors \<mapsto> Node top_authors],
              dependencies = []\<rparr>"

definition c5_autodetector :: autodetector where
  "c5_autodetector = \<lparr>from_sql_graph = c5_from, to_sql_graph = SqlStateGraph,
                       generated_operations = [], next_oid = 0\<rparr>"

text \<open>A resolved graph that holds \<open>top_books\<close> and its dependent \<open>top_authors\<close>.\<close>

definition c6_graph :: graph where
  "c6_graph = \<lparr>nodes = [top_books \<mapsto> \<lparr>sql = SqlText ''F1'', reverse_sql = SqlText ''R1''\<rparr>,
                         top_authors \<mapsto> \<lparr>sql = SqlText ''A1'', reverse_sql = SqlText ''DA''\<rparr>],
               node_map = [top_books \<mapsto> \<lparr>node_key = top_books, children = {top_authors}, parents = {}\<rparr>,
                           top_authors \<mapsto> \<lparr>node_key = top_authors, children = {}, parents = {top_books}\<rparr>],
               dependencies = [(''test_app'', top_authors, top_books)]\<rparr>"

text \<open>
  Two graphs before resolution: one whose only declaration names two registered keys,
  one whose only declaration names a parent that is not registered.
\<close>

definition c7_graph :: graph where
  "c7_graph = \<lparr>nodes = [top_books \<mapsto> \<lparr>sql = SqlText ''B1'', reverse_sql = SqlText ''DB''\<rparr>,
                         top_authors \<mapsto> \<lparr>sql = SqlText ''A1'', reverse_sql = SqlText ''DA''\<rparr>],
               node_map = [top_books \<mapsto> Node top_books, top_authors \<mapsto> Node top_authors],
               dependencies = [(''test_app'', top_authors, top_books)]\<rparr>"

definition c7_dangling :: graph where
  "c7_dangling = c7_graph\<lparr>dependencies := [(''test_app'', top_authors, top_sales)]\<rparr>"

text \<open>A step, as the first loop of \<open>generate_changed_sql\<close> constructs it.\<close>

definition c8_step :: operation where
  "c8_step = \<lparr>oid = 0, cls = ReverseAlterSQL, op_name = ''top_books'', op_sql = SqlText ''R1'',
              op_reverse_sql = SqlText ''F1'', op_dependencies = None\<rparr>"

text \<open>
  A graph in which \<open>top_books\<close> and \<open>top_authors\<close> depend on each other and
  \<open>top_sales\<close> on nothing.
\<close>

definition c9_graph :: graph where
  "c9_graph = \<lparr>nodes = [top_sales \<mapsto> \<lparr>sql = SqlText ''S2'', reverse_sql = SqlText ''DS''\<rparr>,
                         top_books \<mapsto> \<lparr>sql = SqlText ''B1'', reverse_sql = SqlText ''DB''\<rparr>,
                         top_authors \<mapsto> \<lparr>sql = SqlText ''A1'', reverse_sql = SqlText ''DA''\<rparr>],
               node_map = [top_sales \<mapsto> Node top_sales,
                           top_books \<mapsto> \<lparr>node_key = top_books, children = {top_authors}, parents = {top_authors}\<rparr>,
                           top_authors \<mapsto> \<lparr>node_key = top_authors, children = {top_books}, parents = {top_books}\<rparr>],
               dependencies = [(''test_app'', top_books, top_authors),
                               (''test_app'', top_authors, top_books)]\<rparr>"

lemmas key_defs = top_books_def top_authors_def top_sales_def top_narrations_def

section \<open>Properties of the state graph\<close>

lemma for_loop_append:
  "for_loop body (xs @ ys) s =
     (case for_loop body xs s of Inl e \<Rightarrow> Inl e | Inr s' \<Rightarrow> for_loop body ys s')"
  by (induction xs arbitrary: s) (auto split: sum.splits)

lemma for_loop_Inl:
  "for_loop body xs s = Inl e \<Longrightarrow> \<exists>x\<in>set xs. \<exists>s'. body x s' = Inl e"
  by (induction xs arbitrary: s) (auto split: sum.splits)

text \<open>
  C10. \<open>remove_node\<close> never raises. When the key is in both dicts its entry is deleted
  from both; otherwise both dicts stay as they are. The list of pending dependency
  declarations is never touched.
\<close>

theorem remove_node_frame:
  "\<exists>g'. remove_node k g = Inr g' \<and> dependencies g' = dependencies g \<and>
     (if k \<in> dom (nodes g) \<and> k \<in> dom (node_map g)
      then nodes g' = (nodes g)(k := None) \<and> node_map g' = (node_map g)(k := None)
      else nodes g' = nodes g \<and> node_map g' = node_map g)"
  by (simp add: remove_node_def)

text \<open>
  C6, as the code has it. \<open>add_node\<close> never fails, whether the key is registered or
  not: it stores the construct under the key and puts a new node without edges under
  it, replacing what was there. The other entries of both dicts and the pending
  declarations stay; the keys of both dicts are the old ones and \<open>k\<close>, so a key that was
  not registered adds exactly one entry to each.
\<close>

theorem add_node_overwrites:
  "\<exists>g'. add_node k sql_item g = Inr g' \<and>
     nodes g' = (nodes g)(k \<mapsto> sql_item) \<and> node_map g' = (node_map g)(k \<mapsto> Node k) \<and>
     dependencies g' = dependencies g \<and>
     dom (nodes g') = insert k (dom (nodes g)) \<and> dom (node_map g') = insert k (dom (node_map g))"
  by (simp add: add_node_def)

text \<open>
  C6, as the claim states it, fails: \<open>top_books\<close> is registered in \<open>c6_graph\<close>, and
  registering it again returns a graph (with the new construct, and with a node for
  \<open>top_books\<close> that has lost its edge) and no \<open>DuplicateKey\<close>.
\<close>

theorem add_node_duplicate_counterexample:
  "top_books \<in> dom (nodes c6_graph) \<and>
   add_node top_books \<lparr>sql = SqlText ''F2'', reverse_sql = SqlText ''R2''\<rparr> c6_graph =
     Inr (c6_graph\<lparr>node_map := (node_map c6_graph)(top_books \<mapsto> Node top_books),
                    nodes := (nodes c6_graph)
                      (top_books \<mapsto> \<lparr>sql = SqlText ''F2'', reverse_sql = SqlText ''R2''\<rparr>)\<rparr>) \<and>
   add_node top_books \<lparr>sql = SqlText ''F2'', reverse_sql = SqlText ''R2''\<rparr> c6_graph \<noteq>
     Inl DuplicateKey"
  by (simp add: add_node_def c6_graph_def)

text \<open>
  One round of \<open>resolve_dependencies\<close> on a declaration whose two keys are registered
  adds the parent to the child's \<open>parents\<close> and the child to the parent's
  \<open>children\<close>, and nothing else.
\<close>

lemma resolve_step_ok:
  assumes "c \<in> dom (nodes g)" "p \<in> dom (nodes g)" "dom (node_map g) = dom (nodes g)"
  shows "\<exists>g'. resolve_step (a, c, p) g = Inr g' \<and> nodes g' = nodes g \<and>
           dependencies g' = dependencies g \<and> dom (node_map g') = dom (node_map g) \<and>
           (\<forall>k n. node_map g k = Some n \<longrightarrow>
              (\<exists>n'. node_map g' k = Some n' \<and> node_key n' = node_key n \<and>
                    parents n' = parents n \<union> (if k = c then {p} else {}) \<and>
                    children n' = children n \<union> (if k = p then {c} else {})))"
proof -
  from assms obtain cn pn where cn: "node_map g c = Some cn" and pn: "node_map g p = Some pn"
    by (metis domD)
  show ?thesis
  proof (cases "p = c")
    case True
    with assms cn pn show ?thesis
      by (auto simp: resolve_step_def add_parent_def add_child_def Let_def)
  next
    case False
    with assms cn pn show ?thesis
      by (auto simp: resolve_step_def add_parent_def add_child_def Let_def)
  qed
qed

lemma resolve_loop_ok:
  assumes "\<forall>(a, c, p) \<in> set ds. c \<in> dom (nodes g) \<and> p \<in> dom (nodes g)"
      and "dom (node_map g) = dom (nodes g)"
  shows "\<exists>g'. for_loop resolve_step ds g = Inr g' \<and> nodes g' = nodes g \<and>
           dependencies g' = dependencies g \<and> dom (node_map g') = dom (node_map g) \<and>
           (\<forall>k n. node_map g k = Some n \<longrightarrow>
              (\<exists>n'. node_map g' k = Some n' \<and> node_key n' = node_key n \<and>
                    parents n' = parents n \<union> {p. \<exists>a. (a, k, p) \<in> set ds} \<and>
                    children n' = children n \<union> {c. \<exists>a. (a, c, k) \<in> set ds}))"
  using assms
proof (induction ds arbitrary: g)
  case Nil
  then show ?case by simp
next
  case (Cons d ds)
  obtain a c p where d: "d = (a, c, p)" by (cases d) auto
  from Cons.prems d have cp: "c \<in> dom (nodes g)" "p \<in> dom (nodes g)" by auto
  from resolve_step_ok[OF cp Cons.prems(2), of a] obtain g1 where
    g1: "resolve_step (a, c, p) g = Inr g1" "nodes g1 = nodes g"
        "dependencies g1 = dependencies g" "dom (node_map g1) = dom (node_map g)"
    and n1: "\<And>k n. node_map g k = Some n \<Longrightarrow>
              (\<exists>n'. node_map g1 k = Some n' \<and> node_key n' = node_key n \<and>
                    parents n' = parents n \<union> (if k = c then {p} else {}) \<and>
                    children n' = children n \<union> (if k = p then {c} else {}))"
    by blast
  have pre: "\<forall>(a, c, p) \<in> set ds. c \<in> dom (nodes g1) \<and> p \<in> dom (nodes g1)"
    using Cons.prems(1) g1(2) by auto
  have dm: "dom (node_map g1) = dom (nodes g1)"
    using g1 Cons.prems(2) by simp
  from Cons.IH[OF pre dm] obtain g2 where
    g2: "for_loop resolve_step ds g1 = Inr g2" "nodes g2 = nodes g1"
        "dependencies g2 = dependencies g1" "dom (node_map g2) = dom (node_map g1)"
    and n2: "\<And>k n. node_map g1 k = Some n \<Longrightarrow>
              (\<exists>n'. node_map g2 k = Some n' \<and> node_key n' = node_key n \<and>
                    parents n' = parents n \<union> {p. \<exists>a. (a, k, p) \<in> set ds} \<and>
                    children n' = children n \<union> {c. \<exists>a. (a, c, k) \<in> set ds})"
    by blast
  have "\<exists>n'. node_map g2 k = Some n' \<and> node_key n' = node_key n \<and>
             parents n' = parents n \<union> {p. \<exists>a. (a, k, p) \<in> set (d # ds)} \<and>
             children n' = children n \<union> {c. \<exists>a. (a, c, k) \<in> set (d # ds)}"
    if kn: "node_map g k = Some n" for k n
  proof -
    from n1[OF kn] obtain m where m: "node_map g1 k = Some m" "node_key m = node_key n"
      "parents m = parents n \<union> (if k = c then {p} else {})"
      "children m = children n \<union> (if k = p then {c} else {})" by blast
    from n2[OF m(1)] obtain m' where m': "node_map g2 k = Some m'" "node_key m' = node_key m"
      "parents m' = parents m \<union> {p. \<exists>a. (a, k, p) \<in> set ds}"
      "children m' = children m \<union> {c. \<exists>a. (a, c, k) \<in> set ds}" by blast
    have "parents m' = parents n \<union> {p. \<exists>a. (a, k, p) \<in> set (d # ds)}"
      using m m' d by auto
    moreover have "children m' = children n \<union> {c. \<exists>a. (a, c, k) \<in> set (d # ds)}"
      using m m' d by auto
    ultimately show ?thesis using m' m by simp
  qed
  then show ?case using g1 g2 d by simp
qed

lemma resolve_loop_missing:
  assumes "\<exists>(a, c, p) \<in> set ds. c \<notin> dom (nodes g) \<or> p \<notin> dom (nodes g)"
      and "dom (node_map g) = dom (nodes g)"
  shows "\<exists>a r k. for_loop resolve_step ds g = Inl (NodeNotFoundError a r k) \<and>
           k \<notin> dom (nodes g) \<and>
           (\<exists>c p. (a, c, p) \<in> set ds \<and> (r = Child \<and> k = c \<or> r = Parent \<and> k = p))"
  using assms
proof (induction ds arbitrary: g)
  case Nil
  then show ?case by simp
next
  case (Cons d ds)
  obtain a c p where d: "d = (a, c, p)" by (cases d) auto
  show ?case
  proof (cases "c \<in> dom (nodes g) \<and> p \<in> dom (nodes g)")
    case True
    then have cp: "c \<in> dom (nodes g)" "p \<in> dom (nodes g)" by auto
    from resolve_step_ok[OF cp Cons.prems(2), of a] obtain g1 where
      g1: "resolve_step (a, c, p) g = Inr g1" "nodes g1 = nodes g"
          "dom (node_map g1) = dom (node_map g)"
      by blast
    have pre: "\<exists>(a, c, p) \<in> set ds. c \<notin> dom (nodes g1) \<or> p \<notin> dom (nodes g1)"
      using Cons.prems(1) True d g1(2) by auto
    have dm: "dom (node_map g1) = dom (nodes g1)"
      using g1 Cons.prems(2) by simp
    from Cons.IH[OF pre dm] obtain a' r k where
      "for_loop resolve_step ds g1 = Inl (NodeNotFoundError a' r k)" "k \<notin> dom (nodes g1)"
      "\<exists>c p. (a', c, p) \<in> set ds \<and> (r = Child \<and> k = c \<or> r = Parent \<and> k = p)"
      by blast
    then show ?thesis using g1 d by auto
  next
    case False
    show ?thesis
    proof (cases "c \<in> dom (nodes g)")
      case True
      with False have "p \<notin> dom (nodes g)" by simp
      with True have "for_loop resolve_step (d # ds) g = Inl (NodeNotFoundError a Parent p)"
        unfolding d by (simp add: resolve_step_def)
      moreover have "(a, c, p) \<in> set (d # ds)" using d by simp
      ultimately show ?thesis using \<open>p \<notin> dom (nodes g)\<close> by blast
    next
      case False
      then have "for_loop resolve_step (d # ds) g = Inl (NodeNotFoundError a Child c)"
        unfolding d by (simp add: resolve_step_def)
      moreover have "(a, c, p) \<in> set (d # ds)" using d by simp
      ultimately show ?thesis using False by blast
    qed
  qed
qed

lemma resolve_dependencies_Inr:
  assumes "dom (node_map g) = dom (nodes g)" "resolve_dependencies g = Inr g'"
  shows "dom (node_map g') = dom (nodes g')"
proof (cases "\<exists>(a, c, p)\<in>set (dependencies g). c \<notin> dom (nodes g) \<or> p \<notin> dom (nodes g)")
  case True
  from resolve_loop_missing[OF True assms(1)] assms(2) show ?thesis
    by (auto simp: resolve_dependencies_def)
next
  case False
  then have "\<forall>(a, c, p)\<in>set (dependencies g). c \<in> dom (nodes g) \<and> p \<in> dom (nodes g)"
    by auto
  from resolve_loop_ok[OF this assms(1)] assms show ?thesis
    by (auto simp: resolve_dependencies_def)
qed

text \<open>
  The two dicts of a graph have the same keys when it is made, and every method of
  the class keeps it so.
\<close>

lemma graph_dicts_aligned:
  "dom (node_map SqlStateGraph) = dom (nodes SqlStateGraph)"
  "dom (node_map g) = dom (nodes g) \<Longrightarrow> add_node k sql_item g = Inr g' \<Longrightarrow>
     dom (node_map g') = dom (nodes g')"
  "dom (node_map g) = dom (nodes g) \<Longrightarrow> remove_node k g = Inr g' \<Longrightarrow>
     dom (node_map g') = dom (nodes g')"
  "dom (node_map g) = dom (nodes g) \<Longrightarrow> add_lazy_dependency app_label child parent g = Inr g' \<Longrightarrow>
     dom (node_map g') = dom (nodes g')"
  by (clarsimp simp: SqlStateGraph_def add_node_def remove_node_def add_lazy_dependency_def
        split: if_splits)+

text \<open>
  C7. On a graph whose two dicts have the same keys (\<open>graph_dicts_aligned\<close>: every
  graph built with the methods of the class is one):
  when some pending declaration names a child or a parent that is not registered,
  \<open>resolve_dependencies\<close> raises \<open>NodeNotFoundError\<close>, which names an unregistered key
  and the application label of a declaration that names that key in that role;
  when every declaration names registered keys it returns, constructs and declarations
  unchanged, and every node has gained exactly the parents declared for its key and
  the children declared to depend on its key.
\<close>

theorem resolve_dependencies_links:
  assumes "dom (node_map g) = dom (nodes g)"
  shows "((\<exists>(a, c, p)\<in>set (dependencies g). c \<notin> dom (nodes g) \<or> p \<notin> dom (nodes g)) \<longrightarrow>
            (\<exists>a r k. resolve_dependencies g = Inl (NodeNotFoundError a r k) \<and> k \<notin> dom (nodes g) \<and>
               (\<exists>c p. (a, c, p) \<in> set (dependencies g) \<and>
                  (r = Child \<and> k = c \<or> r = Parent \<and> k = p)))) \<and>
         ((\<forall>(a, c, p)\<in>set (dependencies g). c \<in> dom (nodes g) \<and> p \<in> dom (nodes g)) \<longrightarrow>
            (\<exists>g'. resolve_dependencies g = Inr g' \<and> nodes g' = nodes g \<and>
               dependencies g' = dependencies g \<and> dom (node_map g') = dom (node_map g) \<and>
               (\<forall>k n. node_map g k = Some n \<longrightarrow>
                  (\<exists>n'. node_map g' k = Some n' \<and> node_key n' = node_key n \<and>
                     parents n' = parents n \<union> {p. \<exists>a. (a, k, p) \<in> set (dependencies g)} \<and>
                     children n' = children n \<union> {c. \<exists>a. (a, c, k) \<in> set (dependencies g)}))))"
  unfolding resolve_dependencies_def
  using resolve_loop_missing[OF _ assms, of "dependencies g"]
        resolve_loop_ok[OF _ assms, of "dependencies g"]
  by blast

text \<open>
  C7 at two inputs: the declaration of \<open>c7_graph\<close> is linked in both directions, the
  one of \<open>c7_dangling\<close> is refused with the label and the missing parent.
\<close>

theorem resolve_dependencies_links_witness:
  "(\<exists>g' n' m'. resolve_dependencies c7_graph = Inr g' \<and>
       node_map g' top_authors = Some n' \<and> parents n' = {top_books} \<and> children n' = {} \<and>
       node_map g' top_books = Some m' \<and> parents m' = {} \<and> children m' = {top_authors}) \<and>
   resolve_dependencies c7_dangling = Inl (NodeNotFoundError ''test_app'' Parent top_sales)"
proof -
  have d1: "dom (node_map c7_graph) = dom (nodes c7_graph)" by (simp add: c7_graph_def)
  have d2: "dom (node_map c7_dangling) = dom (nodes c7_dangling)"
    by (simp add: c7_dangling_def c7_graph_def)
  have ok: "\<forall>(a, c, p)\<in>set (dependencies c7_graph). c \<in> dom (nodes c7_graph) \<and> p \<in> dom (nodes c7_graph)"
    by (simp add: c7_graph_def)
  have bad: "\<exists>(a, c, p)\<in>set (dependencies c7_dangling).
               c \<notin> dom (nodes c7_dangling) \<or> p \<notin> dom (nodes c7_dangling)"
    by (simp add: c7_dangling_def c7_graph_def key_defs)
  from resolve_dependencies_links[OF d1, THEN conjunct2, THEN mp, OF ok] obtain g' where
    G: "resolve_dependencies c7_graph = Inr g' \<and> nodes g' = nodes c7_graph \<and>
        dependencies g' = dependencies c7_graph \<and> dom (node_map g') = dom (node_map c7_graph) \<and>
        (\<forall>k n. node_map c7_graph k = Some n \<longrightarrow>
           (\<exists>n'. node_map g' k = Some n' \<and> node_key n' = node_key n \<and>
              parents n' = parents n \<union> {p. \<exists>a. (a, k, p) \<in> set (dependencies c7_graph)} \<and>
              children n' = children n \<union> {c. \<exists>a. (a, c, k) \<in> set (dependencies c7_graph)}))" ..
  note g' = G[THEN conjunct1]
  note l = G[THEN conjunct2, THEN conjunct2, THEN conjunct2, THEN conjunct2, rule_format]
  have na: "node_map c7_graph top_authors = Some (Node top_authors)"
    and nb: "node_map c7_graph top_books = Some (Node top_books)"
    by (simp_all add: c7_graph_def key_defs)
  from l[OF na] obtain n' where n': "node_map g' top_authors = Some n'"
    "parents n' = {top_books}" "children n' = {}"
    by (auto simp: c7_graph_def Node_def key_defs)
  from l[OF nb] obtain m' where m': "node_map g' top_books = Some m'"
    "parents m' = {}" "children m' = {top_authors}"
    by (auto simp: c7_graph_def Node_def key_defs)
  from resolve_dependencies_links[OF d2, THEN conjunct1, THEN mp, OF bad] obtain a r k where
    E: "resolve_dependencies c7_dangling = Inl (NodeNotFoundError a r k) \<and>
        k \<notin> dom (nodes c7_dangling) \<and>
        (\<exists>c p. (a, c, p) \<in> set (dependencies c7_dangling) \<and> (r = Child \<and> k = c \<or> r = Parent \<and> k = p))"
    by (elim exE) (rule that)
  note e = E[THEN conjunct1] E[THEN conjunct2, THEN conjunct1] E[THEN conjunct2, THEN conjunct2]
  from e(2,3) have "a = ''test_app'' \<and> r = Parent \<and> k = top_sales"
    by (auto simp: c7_dangling_def c7_graph_def key_defs)
  with e(1) g' n' m' show ?thesis by blast
qed

section \<open>Properties of change detection\<close>

text \<open>Python's \<open>==\<close> on payloads is equality of the values of the data model.\<close>

lemma py_eq_params_iff: "py_eq_params p q \<longleftrightarrow> p = q"
  by (cases p; cases q) auto

lemma py_eq_pair_iff: "py_eq_pair a b \<longleftrightarrow> a = b"
  by (cases a; cases b) (simp add: py_eq_params_iff)

lemma py_eq_iff: "py_eq a b \<longleftrightarrow> a = b"
proof -
  have "list_all2 py_eq_pair xs ys \<longleftrightarrow> xs = ys" for xs ys
    by (simp add: list_all2_eq[symmetric] py_eq_pair_iff[abs_def] fun_eq_iff) 
  then show ?thesis by (cases a; cases b) auto
qed

text \<open>
  C1, as the code has it. A key is in \<open>changed_keys\<close> exactly when it is in both
  snapshots and the forward payloads of its two constructs are unequal as Python
  values (a parameter list and a parameter tuple with the same items are unequal).
  The reverse payloads are not read.
\<close>

theorem changed_keys_forward_only:
  "k \<in> changed_keys_of f t \<longleftrightarrow>
     k \<in> dom (nodes f) \<and> k \<in> dom (nodes t) \<and> sql (the (nodes f k)) \<noteq> sql (the (nodes t k))"
  by (auto simp: changed_keys_of_def py_eq_iff)

text \<open>
  C1, as the claim states it, fails both ways. \<open>top_books\<close> is in both snapshots and
  its two constructs are unequal in the sense of the specification (their reverse
  payloads differ), yet it is not in \<open>changed_keys\<close>; \<open>top_authors\<close> is in both
  snapshots and its two constructs are equal in the sense of the specification (the
  same parameter, once in a list and once in a tuple), yet it is in \<open>changed_keys\<close>.
\<close>

theorem changed_keys_counterexample:
  "top_books \<in> dom (nodes c1_from) \<inter> dom (nodes c1_to) \<and>
   \<not> spec_construct_eq (the (nodes c1_from top_books)) (the (nodes c1_to top_books)) \<and>
   top_books \<notin> changed_keys_of c1_from c1_to \<and>
   top_authors \<in> dom (nodes c1_from) \<inter> dom (nodes c1_to) \<and>
   spec_construct_eq (the (nodes c1_from top_authors)) (the (nodes c1_to top_authors)) \<and>
   top_authors \<in> changed_keys_of c1_from c1_to"
  by (simp add: changed_keys_of_def c1_from_def c1_to_def spec_construct_eq_def
        top_books_def top_authors_def)

section \<open>Properties of the ordering\<close>

lemma first_pos_le: "first_pos P xs \<le> length xs"
  by (induction xs) auto

lemma first_pos_before: "x \<in> set (take (first_pos P xs) xs) \<Longrightarrow> \<not> P x"
  by (induction xs) (auto split: if_splits)

lemma first_pos_hit: "first_pos P xs < length xs \<Longrightarrow> P (xs ! first_pos P xs)"
  by (induction xs) auto

lemma list_insert_at_length: "length pre = pos \<Longrightarrow> list_insert pos x (pre @ post) = pre @ x # post"
  by (simp add: list_insert_def)

lemma cascade_append:
  "cascade A pos (xs @ ys) st = cascade A pos ys (cascade A pos xs st)"
  by (induction A pos xs st rule: cascade.induct) auto

text \<open>
  The inner loop, run over a reversed list \<open>L\<close> on a result that is split at \<open>pos\<close>:
  the accepted items end up between the two parts, in the order of \<open>L\<close>.
\<close>

lemma cascade_rev:
  assumes "length pre = pos"
  shows "cascade A pos (rev L) (pre @ post, ch) =
           (pre @ remdups [d \<leftarrow> L. d \<notin> A \<and> d \<notin> set pre \<union> set post] @ post,
            ch \<union> {d \<in> set L. d \<notin> A \<and> d \<notin> set pre \<union> set post})"
proof (induction L)
  case Nil
  then show ?case by simp
next
  case (Cons x L)
  let ?P = "\<lambda>d. d \<notin> A \<and> d \<notin> set pre \<union> set post"
  let ?R = "remdups (filter ?P L)"
  have step: "cascade A pos (rev (x # L)) (pre @ post, ch) =
                cascade A pos [x] (pre @ ?R @ post, ch \<union> {d \<in> set L. ?P d})"
    using Cons.IH by (simp add: cascade_append)
  show ?case
  proof (cases "?P x \<and> x \<notin> set (filter ?P L)")
    case True
    then have "x \<notin> A" "x \<notin> set (pre @ ?R @ post)" by auto
    then have e1: "cascade A pos [x] (pre @ ?R @ post, ch \<union> {d \<in> set L. ?P d}) =
                 (pre @ x # ?R @ post, insert x (ch \<union> {d \<in> set L. ?P d}))"
      using assms by (auto simp: list_insert_at_length)
    have e2: "remdups (filter ?P (x # L)) = x # ?R" using True by auto
    have e3: "insert x (ch \<union> {d \<in> set L. ?P d}) = ch \<union> {d \<in> set (x # L). ?P d}"
      using True by auto
    show ?thesis by (simp only: step e1 e2 e3 append_Cons)
  next
    case False
    then have "x \<in> A \<or> x \<in> set (pre @ ?R @ post)" by auto
    then have e1: "cascade A pos [x] (pre @ ?R @ post, ch \<union> {d \<in> set L. ?P d}) =
                 (pre @ ?R @ post, ch \<union> {d \<in> set L. ?P d})"
      by auto
    have e2: "remdups (filter ?P (x # L)) = ?R" using False by auto
    have e3: "ch \<union> {d \<in> set L. ?P d} = ch \<union> {d \<in> set (x # L). ?P d}"
      using False by auto
    show ?thesis by (simp only: e2 e3[symmetric] step e1)
  qed
qed

text \<open>One round of the outer loop, in closed form.\<close>

lemma sort_body_changed:
  assumes "node_map g k = Some n" "anc k = Inr al" "desc k = Inr dl" "k \<in> ch"
  shows "sort_body anc desc g A k (r, ch) =
           Inr (take (first_pos (\<lambda>x. x \<in> set (butlast al)) r) r @ cascaded A k r dl @
                  k # drop (first_pos (\<lambda>x. x \<in> set (butlast al)) r) r,
                ch \<union> set (cascaded A k r dl))"
proof -
  let ?pos = "first_pos (\<lambda>x. x \<in> set (butlast al)) r"
  have len: "length (take ?pos r) = ?pos" using first_pos_le[of _ r] by simp
  have "cascade A ?pos (rev (butlast dl)) (take ?pos r @ (k # drop ?pos r), ch) =
          (take ?pos r @ remdups [d \<leftarrow> butlast dl. d \<notin> A \<and> d \<notin> set (take ?pos r) \<union> set (k # drop ?pos r)] @ (k # drop ?pos r),
           ch \<union> {d \<in> set (butlast dl). d \<notin> A \<and> d \<notin> set (take ?pos r) \<union> set (k # drop ?pos r)})"
    by (rule cascade_rev[OF len])
  moreover have "set (take ?pos r) \<union> set (k # drop ?pos r) = insert k (set r)"
    using set_append[of "take ?pos r" "drop ?pos r"] by auto
  ultimately have "cascade A ?pos (rev (butlast dl)) (take ?pos r @ (k # drop ?pos r), ch) =
          (take ?pos r @ cascaded A k r dl @ (k # drop ?pos r), ch \<union> set (cascaded A k r dl))"
    by (auto simp: cascaded_def conj_commute conj_left_commute intro!: arg_cong[where f=remdups] filter_cong)
  then show ?thesis using assms
    by (simp add: sort_body_def list_insert_def Let_def)
qed

lemma sort_body_new:
  assumes "node_map g k = Some n" "anc k = Inr al" "k \<notin> ch"
  shows "sort_body anc desc g A k (r, ch) =
           Inr (take (first_pos (\<lambda>x. x \<in> set (butlast al)) r) r @
                  k # drop (first_pos (\<lambda>x. x \<in> set (butlast al)) r) r, ch)"
  using assms by (simp add: sort_body_def list_insert_def Let_def)

lemma sort_body_shape:
  assumes "node_map g k = Some n" "anc k = Inr al" "k \<in> ch \<longrightarrow> (\<exists>dl. desc k = Inr dl)"
  shows "\<exists>F. sort_body anc desc g A k (r, ch) =
               Inr (take (first_pos (\<lambda>x. x \<in> set (butlast al)) r) r @ F @
                      k # drop (first_pos (\<lambda>x. x \<in> set (butlast al)) r) r, ch \<union> set F) \<and>
             distinct F \<and> set F \<inter> (A \<union> set r \<union> {k}) = {} \<and> (k \<notin> ch \<longrightarrow> F = [])"
proof (cases "k \<in> ch")
  case True
  with assms obtain dl where dl: "desc k = Inr dl" by blast
  have "distinct (cascaded A k r dl)" "set (cascaded A k r dl) \<inter> (A \<union> set r \<union> {k}) = {}"
    by (auto simp: cascaded_def)
  then show ?thesis
    using sort_body_changed[where anc=anc and desc=desc and A=A and r=r, OF assms(1,2) dl True] True
    by blast
next
  case False
  then show ?thesis
    using sort_body_new[where anc=anc and desc=desc and A=A and r=r, OF assms(1,2) False] by simp
qed

lemma distinct_insert_block:
  assumes "distinct r" "distinct F" "set F \<inter> set r = {}" "k \<notin> set r" "k \<notin> set F"
  shows "distinct (take i r @ F @ k # drop i r)"
proof -
  have "distinct (take i r @ drop i r)" using assms(1) by simp
  then have td: "distinct (take i r)" "distinct (drop i r)" "set (take i r) \<inter> set (drop i r) = {}"
    unfolding distinct_append by blast+
  have sub: "set (take i r) \<subseteq> set r" "set (drop i r) \<subseteq> set r"
    by (auto dest: in_set_takeD in_set_dropD)
  show ?thesis
    using td sub assms(2-5) by (auto simp: distinct_append)
qed

lemma sort_loop_inv:
  assumes "distinct ks" "set ks \<subseteq> A" "set ks \<inter> set r = {}" "distinct r" "ch \<subseteq> A \<union> set r"
      and "\<forall>k\<in>set ks. node_map g k \<noteq> None"
      and "\<forall>k\<in>set ks. \<exists>al. anc k = Inr al"
      and "\<forall>k\<in>set ks. k \<in> ch \<longrightarrow> (\<exists>dl. desc k = Inr dl)"
  shows "\<exists>r' ch'. for_loop (sort_body anc desc g A) ks (r, ch) = Inr (r', ch') \<and>
           distinct r' \<and> set r' = set r \<union> set ks \<union> (ch' - ch) \<and> ch \<subseteq> ch' \<and>
           (ch' - ch) \<inter> A = {} \<and> ch' \<subseteq> A \<union> set r'"
  using assms
proof (induction ks arbitrary: r ch)
  case Nil
  then show ?case by simp
next
  case (Cons k ks)
  from Cons.prems obtain n al where n: "node_map g k = Some n" and al: "anc k = Inr al"
    by auto
  have d: "k \<in> ch \<longrightarrow> (\<exists>dl. desc k = Inr dl)" using Cons.prems by simp
  let ?pos = "first_pos (\<lambda>x. x \<in> set (butlast al)) r"
  from sort_body_shape[where anc=anc and desc=desc and A=A and r=r, OF n al d] obtain F where
    body: "sort_body anc desc g A k (r, ch) = Inr (take ?pos r @ F @ k # drop ?pos r, ch \<union> set F)"
    and F: "distinct F" "set F \<inter> (A \<union> set r \<union> {k}) = {}"
    by blast
  let ?r1 = "take ?pos r @ F @ k # drop ?pos r"
  let ?ch1 = "ch \<union> set F"
  have setr: "set (take ?pos r) \<union> set (drop ?pos r) = set r"
    using set_append[of "take ?pos r" "drop ?pos r"] by simp
  have set1: "set ?r1 = set r \<union> insert k (set F)"
    using setr by auto
  have knr: "k \<notin> set r" using Cons.prems(3) by auto
  have dist1: "distinct ?r1"
    using distinct_insert_block[OF Cons.prems(4) F(1), of k ?pos] F(2) knr by auto
  have p1: "distinct ks" "set ks \<subseteq> A" using Cons.prems by auto
  have p3: "set ks \<inter> set ?r1 = {}"
    unfolding set1 using Cons.prems(1,2,3) F(2) by auto
  have p5: "?ch1 \<subseteq> A \<union> set ?r1" unfolding set1 using Cons.prems(5) by auto
  have p6: "\<forall>k\<in>set ks. node_map g k \<noteq> None" "\<forall>k\<in>set ks. \<exists>al. anc k = Inr al"
    using Cons.prems by auto
  have p8: "\<forall>k\<in>set ks. k \<in> ?ch1 \<longrightarrow> (\<exists>dl. desc k = Inr dl)"
    using Cons.prems(2,8) F(2) by auto
  from Cons.IH[OF p1 p3 dist1 p5 p6 p8] obtain r' ch' where
    loop: "for_loop (sort_body anc desc g A) ks (?r1, ?ch1) = Inr (r', ch')"
    and res: "distinct r'" "set r' = set ?r1 \<union> set ks \<union> (ch' - ?ch1)" "?ch1 \<subseteq> ch'"
             "(ch' - ?ch1) \<inter> A = {}" "ch' \<subseteq> A \<union> set r'"
    by blast
  have Fch: "set F \<inter> ch = {}" using F(2) Cons.prems(5) by auto
  have "set r' = set r \<union> set (k # ks) \<union> (ch' - ch)"
    unfolding res(2) set1 using res(3) Fch by auto
  moreover have "(ch' - ch) \<inter> A = {}" using res(4) F(2) by auto
  moreover have "for_loop (sort_body anc desc g A) (k # ks) (r, ch) = Inr (r', ch')"
    using body loop by simp
  ultimately show ?case using res by auto
qed

lemma sort_body_Inl:
  "sort_body anc desc g A k st = Inl e \<Longrightarrow>
     (node_map g k = None \<and> e = KeyError k) \<or> anc k = Inl e \<or> desc k = Inl e"
  by (auto simp: sort_body_def Let_def split: prod.splits option.splits sum.splits if_splits)

lemma first_pos_unique:
  assumes "pos \<le> length r" "\<forall>x\<in>set (take pos r). \<not> P x" "pos < length r \<longrightarrow> P (r ! pos)"
  shows "pos = first_pos P r"
  using assms
proof (induction r arbitrary: pos)
  case Nil
  then show ?case by simp
next
  case (Cons a r)
  show ?case
  proof (cases pos)
    case 0
    with Cons.prems show ?thesis by simp
  next
    case (Suc p)
    with Cons.prems have "\<not> P a" by simp
    moreover have "p = first_pos P r"
      using Cons.IH[of p] Cons.prems Suc by simp
    ultimately show ?thesis using Suc by simp
  qed
qed

lemma sort_body_exact:
  assumes "node_map g k = Some n" "anc k = Inr (as @ [k])" "k \<in> A"
      and "k \<in> ch \<longrightarrow> desc k = Inr (ds @ [k])"
  shows "sort_body anc desc g A k (r, ch) =
           Inr (take (first_pos (\<lambda>x. x \<in> set as) r) r @
                  (if k \<in> ch then remdups [d \<leftarrow> ds. d \<notin> A \<and> d \<notin> set r] else []) @
                  k # drop (first_pos (\<lambda>x. x \<in> set as) r) r,
                ch \<union> set (if k \<in> ch then remdups [d \<leftarrow> ds. d \<notin> A \<and> d \<notin> set r] else []))"
proof (cases "k \<in> ch")
  case True
  with assms have d: "desc k = Inr (ds @ [k])" by simp
  have "cascaded A k r (ds @ [k]) = remdups [d \<leftarrow> ds. d \<notin> A \<and> d \<notin> set r]"
    unfolding cascaded_def using assms(3)
    by (auto intro!: arg_cong[where f=remdups] filter_cong)
  then show ?thesis
    using sort_body_changed[where anc=anc and desc=desc and A=A and r=r, OF assms(1,2) d True] True
    by simp
next
  case False
  then show ?thesis
    using sort_body_new[where anc=anc and desc=desc and A=A and r=r, OF assms(1,2) False] by simp
qed

lemma sort_loop_steps:
  assumes "distinct ks" "set ks \<subseteq> A" "set ks \<inter> set r = {}" "distinct r" "ch \<subseteq> A \<union> set r"
      and "\<forall>k\<in>set ks. node_map g k \<noteq> None"
      and "\<forall>k\<in>set ks. \<exists>as. anc k = Inr (as @ [k])"
      and "\<forall>k\<in>set ks. k \<in> ch \<longrightarrow> (\<exists>ds. desc k = Inr (ds @ [k]))"
  shows "\<exists>r' ch'. for_loop (sort_body anc desc g A) ks (r, ch) = Inr (r', ch') \<and>
           ordering_steps anc desc A ks (r, ch) (r', ch')"
  using assms
proof (induction ks arbitrary: r ch)
  case Nil
  then show ?case by simp
next
  case (Cons k ks)
  from Cons.prems obtain n as where n: "node_map g k = Some n" and as: "anc k = Inr (as @ [k])"
    by auto
  have kA: "k \<in> A" using Cons.prems(2) by simp
  have knr: "k \<notin> set r" using Cons.prems(3) by auto
  obtain ds where ds: "k \<in> ch \<longrightarrow> desc k = Inr (ds @ [k])"
    using Cons.prems(8) by auto
  let ?pos = "first_pos (\<lambda>x. x \<in> set as) r"
  let ?F = "if k \<in> ch then remdups [d \<leftarrow> ds. d \<notin> A \<and> d \<notin> set r] else []"
  let ?r1 = "take ?pos r @ ?F @ k # drop ?pos r"
  let ?ch1 = "ch \<union> set ?F"
  have body: "sort_body anc desc g A k (r, ch) = Inr (?r1, ?ch1)"
    by (rule sort_body_exact[where anc=anc and desc=desc, OF n as kA ds])
  have F: "distinct ?F" "set ?F \<inter> (A \<union> set r) = {}" by auto
  have Fk: "k \<notin> set ?F" using kA F(2) by auto
  have setr: "set (take ?pos r) \<union> set (drop ?pos r) = set r"
    using set_append[of "take ?pos r" "drop ?pos r"] by simp
  have set1: "set ?r1 = set r \<union> insert k (set ?F)"
    using setr by auto
  have dist1: "distinct ?r1"
    using distinct_insert_block[OF Cons.prems(4) F(1), of k ?pos] F(2) knr Fk by blast
  have p1: "distinct ks" "set ks \<subseteq> A" using Cons.prems by auto
  have p3: "set ks \<inter> set ?r1 = {}"
    unfolding set1 using Cons.prems(1,2,3) F(2) by auto
  have p5: "?ch1 \<subseteq> A \<union> set ?r1" unfolding set1 using Cons.prems(5) by auto
  have p6: "\<forall>k\<in>set ks. node_map g k \<noteq> None" "\<forall>k\<in>set ks. \<exists>as. anc k = Inr (as @ [k])"
    using Cons.prems by auto
  have p8: "\<forall>k\<in>set ks. k \<in> ?ch1 \<longrightarrow> (\<exists>ds. desc k = Inr (ds @ [k]))"
    using Cons.prems(2,8) F(2) by auto
  from Cons.IH[OF p1 p3 dist1 p5 p6 p8] obtain r' ch' where
    loop: "for_loop (sort_body anc desc g A) ks (?r1, ?ch1) = Inr (r', ch')"
    and st: "ordering_steps anc desc A ks (?r1, ?ch1) (r', ch')"
    by blast
  have l: "for_loop (sort_body anc desc g A) (k # ks) (r, ch) = Inr (r', ch')"
    using body loop by simp
  have "?pos \<le> length r" by (rule first_pos_le)
  moreover have "\<forall>x\<in>set (take ?pos r). x \<notin> set as"
    using first_pos_before[of _ "\<lambda>x. x \<in> set as" r] by blast
  moreover have "?pos < length r \<longrightarrow> r ! ?pos \<in> set as"
    using first_pos_hit[of "\<lambda>x. x \<in> set as" r] by blast
  moreover have "if k \<in> ch
         then \<exists>ds. desc k = Inr (ds @ [k]) \<and>
                ?F = remdups [d \<leftarrow> ds. d \<notin> A \<and> d \<notin> set r]
         else ?F = []"
    using ds by auto
  ultimately have "ordering_steps anc desc A (k # ks) (r, ch) (r', ch')"
    unfolding ordering_steps.simps using as knr st by blast
  with l show ?case by blast
qed

lemma ordering_steps_Cons:
  assumes "ordering_steps anc desc A (k # ks) (r, ch) s'"
      and "anc k = Inr (as @ [k])" "k \<in> ch \<longrightarrow> desc k = Inr (ds @ [k])"
  shows "ordering_steps anc desc A ks
           (take (first_pos (\<lambda>x. x \<in> set as) r) r @
              (if k \<in> ch then remdups [d \<leftarrow> ds. d \<notin> A \<and> d \<notin> set r] else []) @
              k # drop (first_pos (\<lambda>x. x \<in> set as) r) r,
            ch \<union> set (if k \<in> ch then remdups [d \<leftarrow> ds. d \<notin> A \<and> d \<notin> set r] else [])) s'"
proof -
  from assms(1) have "\<exists>as' F pos.
        anc k = Inr (as' @ [k]) \<and> k \<notin> set r \<and>
        pos \<le> length r \<and> (\<forall>x\<in>set (take pos r). x \<notin> set as') \<and>
        (pos < length r \<longrightarrow> r ! pos \<in> set as') \<and>
        (if k \<in> ch
         then \<exists>ds. desc k = Inr (ds @ [k]) \<and>
                F = remdups [d \<leftarrow> ds. d \<notin> A \<and> d \<notin> set r]
         else F = []) \<and>
        ordering_steps anc desc A ks (take pos r @ F @ k # drop pos r, ch \<union> set F) s'"
    by (simp only: ordering_steps.simps)
  then obtain as' F pos where
    a: "anc k = Inr (as' @ [k])" and pos: "pos \<le> length r" "\<forall>x\<in>set (take pos r). x \<notin> set as'"
      "pos < length r \<longrightarrow> r ! pos \<in> set as'"
    and F: "if k \<in> ch
         then \<exists>ds. desc k = Inr (ds @ [k]) \<and> F = remdups [d \<leftarrow> ds. d \<notin> A \<and> d \<notin> set r]
         else F = []"
    and st: "ordering_steps anc desc A ks (take pos r @ F @ k # drop pos r, ch \<union> set F) s'"
    by (elim exE conjE) (rule that; assumption)
  from a assms(2) have as: "as' = as" by simp
  have p: "pos = first_pos (\<lambda>x. x \<in> set as) r"
    using pos as by (intro first_pos_unique) auto
  have "F = (if k \<in> ch then remdups [d \<leftarrow> ds. d \<notin> A \<and> d \<notin> set r] else [])"
    using F assms(3) by (auto split: if_splits)
  with st p show ?thesis by simp
qed

text \<open>
  C4. Let \<open>order\<close> list the keys of \<open>new_keys \<union> changed_keys\<close> once each, let the
  \<open>to\<close> graph have a node for each of them, let \<open>ancestors()\<close> of each return a list
  that ends with the key itself, and \<open>descendants()\<close> of each changed key likewise.
  Then \<open>sort_sql_changes\<close> returns; the sequence it returns has no key twice; its keys
  are those of \<open>new_keys\<close> and of \<open>changed_keys\<close> as the loop has left it; and the
  sequence and the set it returns are the outcome of the run \<open>ordering_steps\<close> from
  the empty sequence: every key of \<open>order\<close> in turn was put right before the first of
  its proper ancestors in the result so far, or at the end when there was none.
\<close>

theorem sort_sql_changes_order:
  assumes "distinct order" and "set order = new_keys \<union> changed_keys"
      and "\<forall>k\<in>set order. node_map g k \<noteq> None"
      and "\<forall>k\<in>set order. \<exists>as. anc k = Inr (as @ [k])"
      and "\<forall>k\<in>changed_keys. \<exists>ds. desc k = Inr (ds @ [k])"
  shows "\<exists>res ch'. sort_sql_changes anc desc g order new_keys changed_keys = Inr (res, ch') \<and>
           distinct res \<and> set res = new_keys \<union> ch' \<and> changed_keys \<subseteq> ch' \<and>
           ordering_steps anc desc (new_keys \<union> changed_keys) order ([], changed_keys) (res, ch')"
proof -
  let ?A = "new_keys \<union> changed_keys"
  have sub: "set order \<subseteq> ?A" using assms(2) by simp
  have anc': "\<forall>k\<in>set order. \<exists>al. anc k = Inr al" using assms(4) by blast
  have desc': "\<forall>k\<in>set order. k \<in> changed_keys \<longrightarrow> (\<exists>dl. desc k = Inr dl)"
    using assms(5) by blast
  have desc2: "\<forall>k\<in>set order. k \<in> changed_keys \<longrightarrow> (\<exists>ds. desc k = Inr (ds @ [k]))"
    using assms(5) by blast
  from sort_loop_inv[where anc=anc and desc=desc and g=g and A="?A" and r="[]" and ch=changed_keys,
      OF assms(1) sub _ _ _ assms(3) anc' desc']
  obtain r' ch' where
    loop: "for_loop (sort_body anc desc g ?A) order ([], changed_keys) = Inr (r', ch')"
    and res: "distinct r'" "set r' = set [] \<union> set order \<union> (ch' - changed_keys)"
             "changed_keys \<subseteq> ch'"
    by auto
  from sort_loop_steps[where anc=anc and desc=desc and g=g and A="?A" and r="[]" and ch=changed_keys,
      OF assms(1) sub _ _ _ assms(3,4) desc2] loop
  have st: "ordering_steps anc desc ?A order ([], changed_keys) (r', ch')" by auto
  have "set r' = new_keys \<union> ch'" using res(2,3) assms(2) by auto
  then show ?thesis
    using loop res st by (simp add: sort_sql_changes_def)
qed

text \<open>
  C4 at the snapshot \<open>c4_to\<close>, with \<open>top_books\<close> changed and \<open>top_narrations\<close> and
  \<open>top_sales\<close> new. The statement of C4 alone gives the sequence: \<open>top_authors\<close>
  comes in with \<open>top_books\<close>, \<open>top_narrations\<close> goes between them, right before its
  ancestor \<open>top_books\<close>, and \<open>top_sales\<close>, which has no ancestors, goes to the end.
\<close>

theorem sort_sql_changes_order_witness:
  "sort_sql_changes c4_anc c4_desc c4_to [top_books, top_narrations, top_sales]
     {top_narrations, top_sales} {top_books} =
   Inr ([top_authors, top_narrations, top_books, top_sales], {top_books, top_authors})"
proof -
  let ?A = "{top_narrations, top_sales} \<union> {top_books}"
  have h1: "distinct [top_books, top_narrations, top_sales]" by (simp add: key_defs)
  have h2: "set [top_books, top_narrations, top_sales] = ?A" by auto
  have h3: "\<forall>k\<in>set [top_books, top_narrations, top_sales]. node_map c4_to k \<noteq> None"
    by (simp add: c4_to_def key_defs)
  have ab: "c4_anc top_books = Inr ([] @ [top_books])"
    and an: "c4_anc top_narrations = Inr ([top_sales, top_books] @ [top_narrations])"
    and asl: "c4_anc top_sales = Inr ([] @ [top_sales])"
    by (simp_all add: c4_anc_def key_defs)
  have db: "c4_desc top_books = Inr ([top_narrations, top_authors] @ [top_books])"
    by (simp add: c4_desc_def key_defs)
  have h4: "\<forall>k\<in>set [top_books, top_narrations, top_sales]. \<exists>as. c4_anc k = Inr (as @ [k])"
    using ab an asl by auto
  have h5: "\<forall>k\<in>{top_books}. \<exists>ds. c4_desc k = Inr (ds @ [k])"
    using db by auto
  from sort_sql_changes_order[where anc=c4_anc and desc=c4_desc, OF h1 h2 h3 h4 h5]
  obtain res ch' where
    s: "sort_sql_changes c4_anc c4_desc c4_to [top_books, top_narrations, top_sales]
          {top_narrations, top_sales} {top_books} = Inr (res, ch')"
    and st: "ordering_steps c4_anc c4_desc ?A [top_books, top_narrations, top_sales]
               ([], {top_books}) (res, ch')"
    by (elim exE conjE) (rule that; assumption)
  have d1: "top_books \<in> {top_books} \<longrightarrow> c4_desc top_books = Inr ([top_narrations, top_authors] @ [top_books])"
    using db by simp
  have st1: "ordering_steps c4_anc c4_desc ?A [top_narrations, top_sales]
               ([top_authors, top_books], {top_books, top_authors}) (res, ch')"
    using ordering_steps_Cons[OF st ab d1]
    by (simp add: key_defs insert_commute del: ordering_steps.simps)
  have d2: "top_narrations \<in> {top_books, top_authors} \<longrightarrow> c4_desc top_narrations = Inr ([] @ [top_narrations])"
    by (simp add: key_defs)
  have st2: "ordering_steps c4_anc c4_desc ?A [top_sales]
               ([top_authors, top_narrations, top_books], {top_books, top_authors}) (res, ch')"
    using ordering_steps_Cons[OF st1 an d2]
    by (simp add: key_defs del: ordering_steps.simps)
  have d3: "top_sales \<in> {top_books, top_authors} \<longrightarrow> c4_desc top_sales = Inr ([] @ [top_sales])"
    by (simp add: key_defs)
  have "ordering_steps c4_anc c4_desc ?A []
               ([top_authors, top_narrations, top_books, top_sales], {top_books, top_authors}) (res, ch')"
    using ordering_steps_Cons[OF st2 asl d3]
    by (simp add: key_defs del: ordering_steps.simps)
  then have "(res, ch') = ([top_authors, top_narrations, top_books, top_sales], {top_books, top_authors})"
    by simp
  with s show ?thesis by simp
qed

lemma c3_changed: "changed_keys_of c3_from c3_to = {top_books}"
  by (auto simp: changed_keys_of_def c3_from_def c3_to_def key_defs split: if_splits)

lemma c3_new: "dom (nodes c3_to) - dom (nodes c3_from) = {top_sales}"
  by (auto simp: c3_from_def c3_to_def key_defs split: if_splits)

lemma c3_sort:
  "sort_sql_changes c3_anc c3_desc c3_to [top_sales, top_books] {top_sales} {top_books} =
     Inr ([top_sales, top_narrations, top_books], {top_books, top_narrations})"
  by (auto simp: sort_sql_changes_def sort_body_def c3_anc_def c3_desc_def c3_to_def list_insert_def
        key_defs)

text \<open>
  C3 fails on the code. \<open>top_sales\<close> is new, \<open>top_books\<close> is changed, and
  \<open>top_narrations\<close>, unchanged itself, depends on both. The round for \<open>top_books\<close>
  finds the result \<open>top_sales\<close>, puts \<open>top_books\<close> at index 1 and its descendant
  \<open>top_narrations\<close> at that same index: the order is \<open>top_sales, top_narrations,
  top_books\<close>. The earliest-ancestor rule, applied to \<open>top_narrations\<close> as it is to
  every key of the outer loop, gives index 0, before its ancestor \<open>top_sales\<close>. The
  plan made from this order alters \<open>top_narrations\<close> before it creates \<open>top_sales\<close>,
  and the marker of that step for \<open>top_sales\<close> records no step.
\<close>

theorem cascade_position_failing_input:
  "sort_sql_changes c3_anc c3_desc c3_to [top_sales, top_books] {top_sales} {top_books} =
     Inr ([top_sales, top_narrations, top_books], {top_books, top_narrations}) \<and>
   spec_descendant_pos c3_anc top_narrations [top_sales, top_books] = Some 0 \<and>
   list_insert 0 top_narrations [top_sales, top_books] = [top_narrations, top_sales, top_books] \<and>
   (\<exists>ad'. generate_changed_sql c3_anc c3_desc [top_sales, top_books] [] c3_autodetector = Inr ad' \<and>
      map step_view (generated_operations ad') =
        [(''test_app'', ReverseAlterSQL, ''top_narrations'', SqlText ''DN'', SqlText ''N1''),
         (''test_app'', ReverseAlterSQL, ''top_books'', SqlText ''DB'', SqlText ''B1''),
         (''test_app'', AlterSQL, ''top_books'', SqlText ''B2'', SqlText ''DB''),
         (''test_app'', AlterSQL, ''top_narrations'', SqlText ''N1'', SqlText ''DN''),
         (''test_app2'', CreateSQL, ''top_sales'', SqlText ''S1'', SqlText ''DS'')] \<and>
      (''test_app2'', SQL_BLOB, ''top_sales'', InfoNone) \<in> snd (snd (generated_operations ad' ! 3)))"
proof -
  have p: "spec_descendant_pos c3_anc top_narrations [top_sales, top_books] = Some 0"
    "list_insert 0 top_narrations [top_sales, top_books] = [top_narrations, top_sales, top_books]"
    by (simp_all add: spec_descendant_pos_def c3_anc_def list_insert_def key_defs)
  have g: "\<exists>ad'. generate_changed_sql c3_anc c3_desc [top_sales, top_books] [] c3_autodetector = Inr ad' \<and>
      map step_view (generated_operations ad') =
        [(''test_app'', ReverseAlterSQL, ''top_narrations'', SqlText ''DN'', SqlText ''N1''),
         (''test_app'', ReverseAlterSQL, ''top_books'', SqlText ''DB'', SqlText ''B1''),
         (''test_app'', AlterSQL, ''top_books'', SqlText ''B2'', SqlText ''DB''),
         (''test_app'', AlterSQL, ''top_narrations'', SqlText ''N1'', SqlText ''DN''),
         (''test_app2'', CreateSQL, ''top_sales'', SqlText ''S1'', SqlText ''DS'')] \<and>
      (''test_app2'', SQL_BLOB, ''top_sales'', InfoNone) \<in> snd (snd (generated_operations ad' ! 3))"
    unfolding generate_changed_sql_def Let_def
    by (simp add: c3_autodetector_def c3_new c3_changed c3_sort)
       (simp add: teardown_body_def rebuild_body_def add_operation_def make_deps_def Let_def
          step_view_def c3_from_def c3_to_def key_defs)
  from c3_sort p g show ?thesis by blast
qed

text \<open>
  When the ordering returns and when it raises. It goes through the keys in turn and
  stops at the first one for which a lookup or a traversal does not return.
\<close>

lemma cascade_grows:
  "cascade A pos ds (r, ch) = (r', ch') \<Longrightarrow> ch \<subseteq> ch' \<and> (ch' - ch) \<inter> A = {}"
proof (induction ds arbitrary: r ch)
  case Nil
  then show ?case by simp
next
  case (Cons d ds)
  show ?case
  proof (cases "d \<notin> A \<and> d \<notin> set r")
    case True
    with Cons.prems have "cascade A pos ds (list_insert pos d r, insert d ch) = (r', ch')" by simp
    from Cons.IH[OF this] True show ?thesis by auto
  next
    case False
    with Cons.prems have "cascade A pos ds (r, ch) = (r', ch')" by auto
    from Cons.IH[OF this] show ?thesis .
  qed
qed

lemma sort_body_returns:
  assumes "traversals_return anc desc g changed_keys k" "k \<in> A" "ch \<inter> A \<subseteq> changed_keys"
  shows "\<exists>r' ch'. sort_body anc desc g A k (r, ch) = Inr (r', ch') \<and> ch \<subseteq> ch' \<and>
           ch' \<inter> A \<subseteq> changed_keys"
proof -
  from assms(1) obtain n al where n: "node_map g k = Some n" and al: "anc k = Inr al"
    unfolding traversals_return_def by auto
  show ?thesis
  proof (cases "k \<in> ch")
    case False
    then show ?thesis using n al assms(3) by (simp add: sort_body_def Let_def)
  next
    case True
    with assms have "k \<in> changed_keys" by auto
    with assms(1) obtain dl where dl: "desc k = Inr dl"
      unfolding traversals_return_def by auto
    let ?pos = "first_pos (\<lambda>x. x \<in> set (rev (butlast al))) r"
    obtain r' ch' where c: "cascade A ?pos (rev (butlast dl)) (list_insert ?pos k r, ch) = (r', ch')"
      by (cases "cascade A ?pos (rev (butlast dl)) (list_insert ?pos k r, ch)") auto
    from cascade_grows[OF c] have "ch \<subseteq> ch'" "ch' \<inter> A \<subseteq> changed_keys"
      using assms(3) by auto
    moreover have "sort_body anc desc g A k (r, ch) = Inr (r', ch')"
      using n al dl True c by (simp add: sort_body_def Let_def)
    ultimately show ?thesis by blast
  qed
qed

lemma sort_loop_returns:
  assumes "\<forall>k\<in>set ks. traversals_return anc desc g changed_keys k" "set ks \<subseteq> A"
      and "ch \<inter> A \<subseteq> changed_keys"
  shows "\<exists>r' ch'. for_loop (sort_body anc desc g A) ks (r, ch) = Inr (r', ch') \<and> ch \<subseteq> ch' \<and>
           ch' \<inter> A \<subseteq> changed_keys"
  using assms
proof (induction ks arbitrary: r ch)
  case Nil
  then show ?case by simp
next
  case (Cons k ks)
  have "traversals_return anc desc g changed_keys k" "k \<in> A" using Cons.prems by auto
  from sort_body_returns[OF this Cons.prems(3), of r] obtain r1 ch1 where
    b: "sort_body anc desc g A k (r, ch) = Inr (r1, ch1)" "ch \<subseteq> ch1" "ch1 \<inter> A \<subseteq> changed_keys"
    by blast
  have "\<forall>k\<in>set ks. traversals_return anc desc g changed_keys k" "set ks \<subseteq> A"
    using Cons.prems by auto
  from Cons.IH[OF this b(3), of r1] obtain r' ch' where
    "for_loop (sort_body anc desc g A) ks (r1, ch1) = Inr (r', ch')" "ch1 \<subseteq> ch'"
    "ch' \<inter> A \<subseteq> changed_keys"
    by blast
  then show ?case using b by auto
qed

lemma sort_body_fails:
  assumes "\<not> traversals_return anc desc g changed_keys k" "k \<in> A" "changed_keys \<subseteq> ch"
      and "ch \<inter> A \<subseteq> changed_keys"
  shows "sort_body anc desc g A k (r, ch) =
           Inl (case node_map g k of
                  None \<Rightarrow> KeyError k
                | Some _ \<Rightarrow> (case anc k of
                     Inl e \<Rightarrow> e
                   | Inr _ \<Rightarrow> (case desc k of Inl e \<Rightarrow> e | Inr _ \<Rightarrow> KeyError k)))"
proof (cases "node_map g k")
  case None
  then show ?thesis by (simp add: sort_body_def)
next
  case (Some n)
  show ?thesis
  proof (cases "anc k")
    case (Inl e)
    then show ?thesis using Some by (simp add: sort_body_def)
  next
    case (Inr al)
    with Some assms(1) have kc: "k \<in> changed_keys" and nd: "\<not> (\<exists>dl. desc k = Inr dl)"
      unfolding traversals_return_def by auto
    then obtain e where e: "desc k = Inl e" by (cases "desc k") auto
    have "k \<in> ch" using kc assms(3) by auto
    then show ?thesis using Some Inr e by (simp add: sort_body_def Let_def)
  qed
qed

lemma sort_first_failure:
  assumes "order = ks @ k # rest" "set order \<subseteq> new_keys \<union> changed_keys"
      and "\<forall>x\<in>set ks. traversals_return anc desc g changed_keys x"
      and "\<not> traversals_return anc desc g changed_keys k"
  shows "sort_sql_changes anc desc g order new_keys changed_keys =
           Inl (case node_map g k of
                  None \<Rightarrow> KeyError k
                | Some _ \<Rightarrow> (case anc k of
                     Inl e \<Rightarrow> e
                   | Inr _ \<Rightarrow> (case desc k of Inl e \<Rightarrow> e | Inr _ \<Rightarrow> KeyError k)))"
proof -
  let ?A = "new_keys \<union> changed_keys"
  have sub: "set ks \<subseteq> ?A" "k \<in> ?A" using assms(1,2) by auto
  have i: "changed_keys \<inter> ?A \<subseteq> changed_keys" by auto
  from sort_loop_returns[OF assms(3) sub(1) i, of "[]"] obtain r ch where
    p: "for_loop (sort_body anc desc g ?A) ks ([], changed_keys) = Inr (r, ch)"
       "changed_keys \<subseteq> ch" "ch \<inter> ?A \<subseteq> changed_keys"
    by blast
  from sort_body_fails[OF assms(4) sub(2) p(2,3), of r] p(1) show ?thesis
    unfolding sort_sql_changes_def Let_def assms(1) by (simp add: for_loop_append)
qed

lemma sort_all_return:
  assumes "set order \<subseteq> new_keys \<union> changed_keys"
      and "\<forall>x\<in>set order. traversals_return anc desc g changed_keys x"
  shows "\<exists>res ch'. sort_sql_changes anc desc g order new_keys changed_keys = Inr (res, ch')"
proof -
  have i: "changed_keys \<inter> (new_keys \<union> changed_keys) \<subseteq> changed_keys" by auto
  from sort_loop_returns[OF assms(2,1) i, of "[]"] show ?thesis
    unfolding sort_sql_changes_def Let_def by blast
qed

text \<open>
  The traversals raise \<open>RecursionError\<close> or \<open>KeyError\<close> and nothing else, and from a
  key that comes to a cycle they raise for every budget.
\<close>

lemma collect_Inl:
  "collect xs = Inl e \<Longrightarrow> Inl e \<in> set xs"
  by (induction xs arbitrary: e) (auto split: sum.splits)

lemma collect_fails:
  "Inl e \<in> set xs \<Longrightarrow> \<exists>e'. collect xs = Inl e'"
  by (induction xs) (auto split: sum.splits)

lemma traverse_error:
  "traverse edges budget g k = Inl e \<Longrightarrow> e = RecursionError \<or> (\<exists>k'. e = KeyError k')"
proof (induction budget arbitrary: k e)
  case 0
  then show ?case by simp
next
  case (Suc budget)
  show ?case
  proof (cases "node_map g k")
    case None
    with Suc.prems show ?thesis by auto
  next
    case (Some nd)
    with Suc.prems have
      "collect (map (\<lambda>next. traverse edges budget g next) (sorted_list_of_set (edges nd))) = Inl e"
      by (auto split: sum.splits)
    from collect_Inl[OF this] obtain p where "traverse edges budget g p = Inl e" by auto
    then show ?thesis by (rule Suc.IH)
  qed
qed

lemma traverse_error_closed:
  assumes "edges_closed edges g" "k \<in> dom (node_map g)" "traverse edges budget g k = Inl e"
  shows "e = RecursionError"
  using assms(2,3)
proof (induction budget arbitrary: k e)
  case 0
  then show ?case by simp
next
  case (Suc budget)
  from Suc.prems(1) obtain nd where nd: "node_map g k = Some nd" by auto
  with Suc.prems(2) have
    "collect (map (\<lambda>next. traverse edges budget g next) (sorted_list_of_set (edges nd))) = Inl e"
    by (auto split: sum.splits)
  from collect_Inl[OF this] obtain p where p: "p \<in> set (sorted_list_of_set (edges nd))"
    "traverse edges budget g p = Inl e" by auto
  have fin: "finite (edges nd)" and sub: "edges nd \<subseteq> dom (node_map g)"
    using assms(1) nd unfolding edges_closed_def by blast+
  from p(1) fin have "p \<in> edges nd" by simp
  with sub have "p \<in> dom (node_map g)" by blast
  from Suc.IH[OF this p(2)] show ?case .
qed

lemma reaches_cycle_step:
  assumes "reaches_cycle edges g k"
  shows "\<exists>p. (k, p) \<in> edge_rel edges g \<and> reaches_cycle edges g p"
proof -
  from assms obtain c where kc: "(k, c) \<in> (edge_rel edges g)\<^sup>*" and cc: "(c, c) \<in> (edge_rel edges g)\<^sup>+"
    unfolding reaches_cycle_def by blast
  from kc show ?thesis
  proof (cases rule: converse_rtranclE)
    case base
    with cc obtain p where "(k, p) \<in> edge_rel edges g" "(p, k) \<in> (edge_rel edges g)\<^sup>*"
      by (meson tranclD)
    moreover have "(k, k) \<in> (edge_rel edges g)\<^sup>+" using base cc by simp
    ultimately show ?thesis unfolding reaches_cycle_def by blast
  next
    case (step p)
    then show ?thesis using cc unfolding reaches_cycle_def by blast
  qed
qed

lemma traverse_cycle_fails:
  assumes "edges_closed edges g" "reaches_cycle edges g k"
  shows "\<exists>e. traverse edges budget g k = Inl e"
  using assms(2)
proof (induction budget arbitrary: k)
  case 0
  then show ?case by simp
next
  case (Suc budget)
  from reaches_cycle_step[OF Suc.prems] obtain p where
    kp: "(k, p) \<in> edge_rel edges g" and rp: "reaches_cycle edges g p" by blast
  from kp obtain nd where nd: "node_map g k = Some nd" and pe: "p \<in> edges nd"
    unfolding edge_rel_def by blast
  have fin: "finite (edges nd)" using assms(1) nd unfolding edges_closed_def by blast
  from Suc.IH[OF rp] obtain e where "traverse edges budget g p = Inl e" by blast
  moreover have "p \<in> set (sorted_list_of_set (edges nd))" using pe fin by simp
  ultimately have "Inl e \<in> set (map (\<lambda>next. traverse edges budget g next) (sorted_list_of_set (edges nd)))"
    by force
  from collect_fails[OF this] show ?case using nd by auto
qed

lemma traverse_cycle_overflows:
  assumes "edges_closed edges g" "reaches_cycle edges g k"
  shows "traverse edges budget g k = Inl RecursionError"
proof -
  from traverse_cycle_fails[OF assms] obtain e where e: "traverse edges budget g k = Inl e" by blast
  from reaches_cycle_step[OF assms(2)] have "k \<in> dom (node_map g)"
    unfolding edge_rel_def by blast
  from traverse_error_closed[OF assms(1) this e] e show ?thesis by simp
qed

lemma traverse_Inr_node: "traverse edges budget g k = Inr al \<Longrightarrow> node_map g k \<noteq> None"
  by (cases budget) (auto split: option.splits)

lemma traverse_leaf:
  assumes "node_map g k = Some nd" "edges nd = {}" "0 < budget"
  shows "traverse edges budget g k = Inr [k]"
  using assms by (cases budget) (simp_all add: first_occurrences_def)

lemma sort_never_cyclic_dependency:
  "sort_sql_changes (ancestors budget g) (descendants budget g) g order new_keys changed_keys \<noteq>
     Inl CyclicDependency"
proof
  assume "sort_sql_changes (ancestors budget g) (descendants budget g) g order new_keys changed_keys =
     Inl CyclicDependency"
  then have "for_loop (sort_body (ancestors budget g) (descendants budget g) g (new_keys \<union> changed_keys))
               order ([], changed_keys) = Inl CyclicDependency"
    by (simp add: sort_sql_changes_def)
  from for_loop_Inl[OF this] obtain k s' where
    "sort_body (ancestors budget g) (descendants budget g) g (new_keys \<union> changed_keys) k s' =
       Inl CyclicDependency"
    by blast
  from sort_body_Inl[OF this] show False
    using traverse_error[of parents budget g k CyclicDependency]
          traverse_error[of children budget g k CyclicDependency]
    by (auto simp: ancestors_def descendants_def)
qed

lemma sort_cycle_overflow:
  assumes "order = ks @ k # rest" "set order \<subseteq> new_keys \<union> changed_keys"
      and "\<forall>x\<in>set ks. traversals_return (ancestors budget g) (descendants budget g) g changed_keys x"
      and "edges_closed parents g" "edges_closed children g"
      and "reaches_cycle parents g k \<or>
           (\<exists>al. ancestors budget g k = Inr al) \<and> k \<in> changed_keys \<and> reaches_cycle children g k"
  shows "sort_sql_changes (ancestors budget g) (descendants budget g) g order new_keys changed_keys =
           Inl RecursionError"
proof -
  from assms(6) show ?thesis
  proof
    assume rc: "reaches_cycle parents g k"
    have a: "ancestors budget g k = Inl RecursionError"
      unfolding ancestors_def by (rule traverse_cycle_overflows[OF assms(4) rc])
    from reaches_cycle_step[OF rc] obtain n where n: "node_map g k = Some n"
      unfolding edge_rel_def by blast
    have nt: "\<not> traversals_return (ancestors budget g) (descendants budget g) g changed_keys k"
      using a by (simp add: traversals_return_def)
    from sort_first_failure[OF assms(1,2,3) nt] show ?thesis using n a by simp
  next
    assume c: "(\<exists>al. ancestors budget g k = Inr al) \<and> k \<in> changed_keys \<and> reaches_cycle children g k"
    then obtain al where al: "ancestors budget g k = Inr al" by blast
    have d: "descendants budget g k = Inl RecursionError"
      unfolding descendants_def using c by (auto intro: traverse_cycle_overflows[OF assms(5)])
    from al obtain n where n: "node_map g k = Some n"
      using traverse_Inr_node[of parents budget g k al] by (auto simp: ancestors_def)
    have nt: "\<not> traversals_return (ancestors budget g) (descendants budget g) g changed_keys k"
      using d c by (simp add: traversals_return_def)
    from sort_first_failure[OF assms(1,2,3) nt] show ?thesis using n al d by simp
  qed
qed

text \<open>
  C9, as the code has it. The ordering never raises \<open>CyclicDependency\<close>. Whatever the
  traversals \<open>anc\<close> and \<open>desc\<close> are, it returns when the lookups and traversals of
  every key of \<open>order\<close> return, and it stops at the first key \<open>k\<close> for which one does
  not: with \<open>KeyError\<close> when \<open>k\<close> has no node, with the exception of \<open>ancestors()\<close>
  when that raises, with the exception of \<open>descendants()\<close> when \<open>k\<close> is changed and
  that raises. With the traversals of the specification, which keep no visited set,
  a key \<open>k\<close> that comes to a cycle by parent edges, or by child edges when it is
  changed and its \<open>ancestors()\<close> returns, ends the ordering with \<open>RecursionError\<close>,
  whatever the budget of calls is.
\<close>

theorem sort_sql_changes_abort:
  "sort_sql_changes (ancestors budget g) (descendants budget g) g order new_keys changed_keys \<noteq>
     Inl CyclicDependency \<and>
   (set order \<subseteq> new_keys \<union> changed_keys \<and>
    (\<forall>x\<in>set order. traversals_return anc desc g changed_keys x) \<longrightarrow>
      (\<exists>res ch'. sort_sql_changes anc desc g order new_keys changed_keys = Inr (res, ch'))) \<and>
   (order = ks @ k # rest \<and> set order \<subseteq> new_keys \<union> changed_keys \<and>
    (\<forall>x\<in>set ks. traversals_return anc desc g changed_keys x) \<longrightarrow>
      (node_map g k = None \<longrightarrow>
         sort_sql_changes anc desc g order new_keys changed_keys = Inl (KeyError k)) \<and>
      (node_map g k \<noteq> None \<and> anc k = Inl e \<longrightarrow>
         sort_sql_changes anc desc g order new_keys changed_keys = Inl e) \<and>
      (node_map g k \<noteq> None \<and> (\<exists>al. anc k = Inr al) \<and> k \<in> changed_keys \<and> desc k = Inl e \<longrightarrow>
         sort_sql_changes anc desc g order new_keys changed_keys = Inl e)) \<and>
   (order = ks @ k # rest \<and> set order \<subseteq> new_keys \<union> changed_keys \<and>
    (\<forall>x\<in>set ks. traversals_return (ancestors budget g) (descendants budget g) g changed_keys x) \<and>
    edges_closed parents g \<and> edges_closed children g \<and>
    (reaches_cycle parents g k \<or>
     (\<exists>al. ancestors budget g k = Inr al) \<and> k \<in> changed_keys \<and> reaches_cycle children g k) \<longrightarrow>
      sort_sql_changes (ancestors budget g) (descendants budget g) g order new_keys changed_keys =
        Inl RecursionError)"
proof (intro conjI impI; (elim conjE)?)
  show "sort_sql_changes (ancestors budget g) (descendants budget g) g order new_keys changed_keys \<noteq>
     Inl CyclicDependency"
    by (rule sort_never_cyclic_dependency)
next
  assume "set order \<subseteq> new_keys \<union> changed_keys"
    "\<forall>x\<in>set order. traversals_return anc desc g changed_keys x"
  then show "\<exists>res ch'. sort_sql_changes anc desc g order new_keys changed_keys = Inr (res, ch')"
    by (rule sort_all_return)
next
  assume a: "order = ks @ k # rest" "set order \<subseteq> new_keys \<union> changed_keys"
    "\<forall>x\<in>set ks. traversals_return anc desc g changed_keys x"
    and n: "node_map g k = None"
  have "\<not> traversals_return anc desc g changed_keys k" using n by (simp add: traversals_return_def)
  from sort_first_failure[OF a this] n
  show "sort_sql_changes anc desc g order new_keys changed_keys = Inl (KeyError k)" by simp
next
  assume a: "order = ks @ k # rest" "set order \<subseteq> new_keys \<union> changed_keys"
    "\<forall>x\<in>set ks. traversals_return anc desc g changed_keys x"
    and n: "node_map g k \<noteq> None" and e: "anc k = Inl e"
  have "\<not> traversals_return anc desc g changed_keys k" using e by (simp add: traversals_return_def)
  from sort_first_failure[OF a this] n e
  show "sort_sql_changes anc desc g order new_keys changed_keys = Inl e" by auto
next
  assume a: "order = ks @ k # rest" "set order \<subseteq> new_keys \<union> changed_keys"
    "\<forall>x\<in>set ks. traversals_return anc desc g changed_keys x"
    and n: "node_map g k \<noteq> None" and al: "\<exists>al. anc k = Inr al" and c: "k \<in> changed_keys"
    and e: "desc k = Inl e"
  have "\<not> traversals_return anc desc g changed_keys k" using e c by (simp add: traversals_return_def)
  from sort_first_failure[OF a this] n al e
  show "sort_sql_changes anc desc g order new_keys changed_keys = Inl e" by auto
next
  assume "order = ks @ k # rest" "set order \<subseteq> new_keys \<union> changed_keys"
    "\<forall>x\<in>set ks. traversals_return (ancestors budget g) (descendants budget g) g changed_keys x"
    "edges_closed parents g" "edges_closed children g"
    "reaches_cycle parents g k \<or>
     (\<exists>al. ancestors budget g k = Inr al) \<and> k \<in> changed_keys \<and> reaches_cycle children g k"
  then show "sort_sql_changes (ancestors budget g) (descendants budget g) g order new_keys changed_keys =
        Inl RecursionError"
    by (rule sort_cycle_overflow)
qed

lemma c9_closed: "edges_closed parents c9_graph" "edges_closed children c9_graph"
  by (auto simp: edges_closed_def c9_graph_def Node_def split: if_splits)

lemma c9_cycle: "(top_books, top_books) \<in> (edge_rel parents c9_graph)\<^sup>+"
  "(top_authors, top_authors) \<in> (edge_rel parents c9_graph)\<^sup>+"
proof -
  have a: "(top_books, top_authors) \<in> edge_rel parents c9_graph"
    by (simp add: edge_rel_def c9_graph_def key_defs)
  have b: "(top_authors, top_books) \<in> edge_rel parents c9_graph"
    by (simp add: edge_rel_def c9_graph_def key_defs)
  from a b show "(top_books, top_books) \<in> (edge_rel parents c9_graph)\<^sup>+" by (meson trancl.intros)
  from a b show "(top_authors, top_authors) \<in> (edge_rel parents c9_graph)\<^sup>+" by (meson trancl.intros)
qed

lemma parent_edges_edge_rel: "parent_edges g = edge_rel parents g"
  by (simp add: parent_edges_def edge_rel_def)

text \<open>
  C9 at the graph \<open>c9_graph\<close>: the ordering of the new \<open>top_sales\<close> and the changed
  \<open>top_authors\<close>, which is on the cycle, ends with \<open>RecursionError\<close>; the ordering of
  \<open>top_sales\<close> alone returns.
\<close>

theorem sort_sql_changes_abort_witness:
  "sort_sql_changes (ancestors 1000 c9_graph) (descendants 1000 c9_graph) c9_graph
     [top_sales, top_authors] {top_sales} {top_authors} = Inl RecursionError \<and>
   (\<exists>res ch'. sort_sql_changes (ancestors 1000 c9_graph) (descendants 1000 c9_graph) c9_graph
     [top_sales] {top_sales} {} = Inr (res, ch'))"
proof -
  have leaf: "ancestors 1000 c9_graph top_sales = Inr [top_sales]"
    unfolding ancestors_def
    by (rule traverse_leaf[where nd="Node top_sales"]) (simp_all add: c9_graph_def Node_def key_defs)
  have ok: "traversals_return (ancestors 1000 c9_graph) (descendants 1000 c9_graph) c9_graph
              {top_authors} top_sales"
    "traversals_return (ancestors 1000 c9_graph) (descendants 1000 c9_graph) c9_graph {} top_sales"
    using leaf by (simp_all add: traversals_return_def c9_graph_def key_defs)
  have r: "reaches_cycle parents c9_graph top_authors"
    unfolding reaches_cycle_def using c9_cycle(2) by blast
  note t = sort_sql_changes_abort[where budget=1000 and g=c9_graph
      and anc="ancestors 1000 c9_graph" and desc="descendants 1000 c9_graph"]
  have "sort_sql_changes (ancestors 1000 c9_graph) (descendants 1000 c9_graph) c9_graph
     [top_sales, top_authors] {top_sales} {top_authors} = Inl RecursionError"
    using t[where order="[top_sales, top_authors]" and ks="[top_sales]" and k=top_authors
        and rest="[]" and new_keys="{top_sales}" and changed_keys="{top_authors}",
        THEN conjunct2, THEN conjunct2, THEN conjunct2]
      ok(1) c9_closed r by simp
  moreover have "\<exists>res ch'. sort_sql_changes (ancestors 1000 c9_graph) (descendants 1000 c9_graph) c9_graph
     [top_sales] {top_sales} {} = Inr (res, ch')"
    using t[where order="[top_sales]" and new_keys="{top_sales}" and changed_keys="{}",
        THEN conjunct2, THEN conjunct1] ok(2) by simp
  ultimately show ?thesis by simp
qed

text \<open>
  C9, as the claim states it, fails. The dependency relation of \<open>c9_graph\<close> has a
  cycle, the ordering of the changed key \<open>top_books\<close> traverses it, and the ordering
  ends with \<open>RecursionError\<close>, not with \<open>CyclicDependency\<close>.
\<close>

theorem cyclic_traversal_counterexample:
  "cyclic c9_graph \<and>
   sort_sql_changes (ancestors 1000 c9_graph) (descendants 1000 c9_graph) c9_graph
     [top_books] {} {top_books} = Inl RecursionError \<and>
   sort_sql_changes (ancestors 1000 c9_graph) (descendants 1000 c9_graph) c9_graph
     [top_books] {} {top_books} \<noteq> Inl CyclicDependency"
proof -
  have c: "cyclic c9_graph"
    unfolding cyclic_def parent_edges_edge_rel using c9_cycle(1) by blast
  have r: "reaches_cycle parents c9_graph top_books \<or>
     (\<exists>al. ancestors 1000 c9_graph top_books = Inr al) \<and> top_books \<in> {top_books} \<and>
     reaches_cycle children c9_graph top_books"
    unfolding reaches_cycle_def using c9_cycle(1) by blast
  have "sort_sql_changes (ancestors 1000 c9_graph) (descendants 1000 c9_graph) c9_graph
     [top_books] {} {top_books} = Inl RecursionError"
    by (rule sort_cycle_overflow[where ks="[]" and k=top_books and rest="[]", OF _ _ _ c9_closed r])
       simp_all
  with c show ?thesis by simp
qed

section \<open>Properties of plan emission\<close>

lemma teardown_body_skip:
  "k \<notin> changed_keys \<Longrightarrow> teardown_body changed_keys k (ad, latest) = Inr (ad, latest)"
  by (simp add: teardown_body_def)

lemma teardown_body_changed:
  assumes "k \<in> changed_keys" "nodes (from_sql_graph ad) k = Some old_node"
      and "node_map (from_sql_graph ad) k = Some n"
  shows "\<exists>ad' operation deps.
           teardown_body changed_keys k (ad, latest) = Inr (ad', latest(k \<mapsto> operation)) \<and>
           reverse_alter_of (from_sql_graph ad) k operation \<and>
           generated_operations ad' = generated_operations ad @
             (if truthy (reverse_sql old_node) then [(fst k, operation, deps)] else []) \<and>
           nodes (from_sql_graph ad') = nodes (from_sql_graph ad) \<and>
           dom (node_map (from_sql_graph ad')) = dom (node_map (from_sql_graph ad)) \<and>
           to_sql_graph ad' = to_sql_graph ad"
  using assms
  by (auto simp: teardown_body_def Let_def add_operation_def reverse_alter_of_def)

lemma teardown_loop:
  assumes "\<forall>k\<in>set keys \<inter> changed_keys.
             k \<in> dom (nodes (from_sql_graph ad)) \<and> k \<in> dom (node_map (from_sql_graph ad))"
  shows "\<exists>ad' latest' new_steps.
           for_loop (teardown_body changed_keys) keys (ad, latest) = Inr (ad', latest') \<and>
           generated_operations ad' = generated_operations ad @ new_steps \<and>
           map step_view new_steps =
             map (\<lambda>k. (fst k, ReverseAlterSQL, snd k,
                        reverse_sql (the (nodes (from_sql_graph ad) k)),
                        sql (the (nodes (from_sql_graph ad) k))))
               (filter (\<lambda>k. k \<in> changed_keys \<and>
                        truthy (reverse_sql (the (nodes (from_sql_graph ad) k)))) keys) \<and>
           nodes (from_sql_graph ad') = nodes (from_sql_graph ad) \<and>
           (\<forall>k. (\<exists>operation. latest k = Some operation \<and>
                     reverse_alter_of (from_sql_graph ad) k operation) \<or>
                k \<in> set keys \<inter> changed_keys \<longrightarrow>
                (\<exists>operation. latest' k = Some operation \<and>
                     reverse_alter_of (from_sql_graph ad) k operation))"
  using assms
proof (induction keys arbitrary: ad latest)
  case Nil
  then show ?case by simp
next
  case (Cons k keys)
  show ?case
  proof (cases "k \<in> changed_keys")
    case False
    have pre: "\<forall>k\<in>set keys \<inter> changed_keys.
             k \<in> dom (nodes (from_sql_graph ad)) \<and> k \<in> dom (node_map (from_sql_graph ad))"
      using Cons.prems by auto
    from Cons.IH[OF pre, of latest] obtain ad' latest' new_steps where
      ih: "for_loop (teardown_body changed_keys) keys (ad, latest) = Inr (ad', latest')"
        "generated_operations ad' = generated_operations ad @ new_steps"
        "map step_view new_steps =
             map (\<lambda>k. (fst k, ReverseAlterSQL, snd k,
                        reverse_sql (the (nodes (from_sql_graph ad) k)),
                        sql (the (nodes (from_sql_graph ad) k))))
               (filter (\<lambda>k. k \<in> changed_keys \<and>
                        truthy (reverse_sql (the (nodes (from_sql_graph ad) k)))) keys)"
        "nodes (from_sql_graph ad') = nodes (from_sql_graph ad)"
        "\<forall>k. (\<exists>operation. latest k = Some operation \<and>
                     reverse_alter_of (from_sql_graph ad) k operation) \<or>
                k \<in> set keys \<inter> changed_keys \<longrightarrow>
                (\<exists>operation. latest' k = Some operation \<and>
                     reverse_alter_of (from_sql_graph ad) k operation)"
      by blast
    have "for_loop (teardown_body changed_keys) (k # keys) (ad, latest) = Inr (ad', latest')"
      using ih(1) False by (simp add: teardown_body_skip)
    moreover have "\<forall>x. (\<exists>operation. latest x = Some operation \<and>
                     reverse_alter_of (from_sql_graph ad) x operation) \<or>
                x \<in> set (k # keys) \<inter> changed_keys \<longrightarrow>
                (\<exists>operation. latest' x = Some operation \<and>
                     reverse_alter_of (from_sql_graph ad) x operation)"
      using ih(5) False by auto
    ultimately show ?thesis using ih(2,3,4) False by auto
  next
    case True
    from Cons.prems True obtain old_node n where
      old: "nodes (from_sql_graph ad) k = Some old_node" and n: "node_map (from_sql_graph ad) k = Some n"
      by auto
    from teardown_body_changed[OF True old n, of latest] obtain ad1 operation deps where
      b: "teardown_body changed_keys k (ad, latest) = Inr (ad1, latest(k \<mapsto> operation))"
         "reverse_alter_of (from_sql_graph ad) k operation"
         "generated_operations ad1 = generated_operations ad @
             (if truthy (reverse_sql old_node) then [(fst k, operation, deps)] else [])"
         "nodes (from_sql_graph ad1) = nodes (from_sql_graph ad)"
         "dom (node_map (from_sql_graph ad1)) = dom (node_map (from_sql_graph ad))"
      by blast
    have same: "reverse_alter_of (from_sql_graph ad1) = reverse_alter_of (from_sql_graph ad)"
      using b(4) by (simp add: reverse_alter_of_def fun_eq_iff)
    have pre: "\<forall>k\<in>set keys \<inter> changed_keys.
             k \<in> dom (nodes (from_sql_graph ad1)) \<and> k \<in> dom (node_map (from_sql_graph ad1))"
      using Cons.prems b(4,5) by auto
    from Cons.IH[OF pre, of "latest(k \<mapsto> operation)"] obtain ad' latest' new_steps where
      ih: "for_loop (teardown_body changed_keys) keys (ad1, latest(k \<mapsto> operation)) = Inr (ad', latest')"
        "generated_operations ad' = generated_operations ad1 @ new_steps"
        "map step_view new_steps =
             map (\<lambda>k. (fst k, ReverseAlterSQL, snd k,
                        reverse_sql (the (nodes (from_sql_graph ad1) k)),
                        sql (the (nodes (from_sql_graph ad1) k))))
               (filter (\<lambda>k. k \<in> changed_keys \<and>
                        truthy (reverse_sql (the (nodes (from_sql_graph ad1) k)))) keys)"
        "nodes (from_sql_graph ad') = nodes (from_sql_graph ad1)"
        "\<forall>x. (\<exists>op. (latest(k \<mapsto> operation)) x = Some op \<and>
                     reverse_alter_of (from_sql_graph ad1) x op) \<or>
                x \<in> set keys \<inter> changed_keys \<longrightarrow>
                (\<exists>op. latest' x = Some op \<and>
                     reverse_alter_of (from_sql_graph ad1) x op)"
      by blast
    let ?first = "if truthy (reverse_sql old_node) then [(fst k, operation, deps)] else []"
    have v: "step_view (fst k, operation, deps) =
               (fst k, ReverseAlterSQL, snd k, reverse_sql old_node, sql old_node)"
      using b(2) old by (simp add: step_view_def reverse_alter_of_def)
    have loop: "for_loop (teardown_body changed_keys) (k # keys) (ad, latest) = Inr (ad', latest')"
      using b(1) ih(1) by simp
    have gen: "generated_operations ad' = generated_operations ad @ (?first @ new_steps)"
      using ih(2) b(3) by simp
    have steps: "map step_view (?first @ new_steps) =
             map (\<lambda>k. (fst k, ReverseAlterSQL, snd k,
                        reverse_sql (the (nodes (from_sql_graph ad) k)),
                        sql (the (nodes (from_sql_graph ad) k))))
               (filter (\<lambda>k. k \<in> changed_keys \<and>
                        truthy (reverse_sql (the (nodes (from_sql_graph ad) k)))) (k # keys))"
      using ih(3) b(4) True old v by simp
    have lat: "\<forall>x. (\<exists>op. latest x = Some op \<and> reverse_alter_of (from_sql_graph ad) x op) \<or>
                x \<in> set (k # keys) \<inter> changed_keys \<longrightarrow>
                (\<exists>op. latest' x = Some op \<and> reverse_alter_of (from_sql_graph ad) x op)"
    proof (intro allI impI)
      fix x
      assume a: "(\<exists>op. latest x = Some op \<and> reverse_alter_of (from_sql_graph ad) x op) \<or>
                x \<in> set (k # keys) \<inter> changed_keys"
      have "(\<exists>op. (latest(k \<mapsto> operation)) x = Some op \<and>
                     reverse_alter_of (from_sql_graph ad1) x op) \<or>
                x \<in> set keys \<inter> changed_keys"
        using a b(2) same by (cases "x = k") auto
      then show "\<exists>op. latest' x = Some op \<and> reverse_alter_of (from_sql_graph ad) x op"
        using ih(5) same by metis
    qed
    show ?thesis
      using loop gen steps lat ih(4) b(4) by (intro exI[of _ ad'] exI[of _ latest'] exI[of _ "?first @ new_steps"]) simp
  qed
qed

text \<open>
  C5. Let every key of \<open>keys\<close> that is in \<open>changed_keys\<close> be in both dicts of the
  \<open>from\<close> graph. Then the first loop returns. The steps it has passed to
  \<open>add_operation\<close> are, in the order of \<open>keys\<close>, one \<open>ReverseAlterSQL\<close> step for each
  key that is in \<open>changed_keys\<close> and whose old reverse statement is true in Python's
  sense (not \<open>None\<close>, not empty), with the old reverse statement as its forward
  payload and the old forward statement as its reverse payload; a changed key whose
  old reverse statement is empty gets no step. Every changed key of \<open>keys\<close>, with or
  without a step, is recorded in \<open>latest_operations\<close> with such a step, and a marker
  built for it afterwards refers to that step.
\<close>

theorem teardown_pass_steps:
  assumes "\<forall>k\<in>set keys \<inter> changed_keys.
             k \<in> dom (nodes (from_sql_graph ad)) \<and> k \<in> dom (node_map (from_sql_graph ad))"
  shows "\<exists>ad' latest' new_steps.
           for_loop (teardown_body changed_keys) keys (ad, latest) = Inr (ad', latest') \<and>
           generated_operations ad' = generated_operations ad @ new_steps \<and>
           map step_view new_steps =
             map (\<lambda>k. (fst k, ReverseAlterSQL, snd k,
                        reverse_sql (the (nodes (from_sql_graph ad) k)),
                        sql (the (nodes (from_sql_graph ad) k))))
               (filter (\<lambda>k. k \<in> changed_keys \<and>
                        truthy (reverse_sql (the (nodes (from_sql_graph ad) k)))) keys) \<and>
           (\<forall>k\<in>set keys \<inter> changed_keys.
              \<exists>operation. latest' k = Some operation \<and>
                 reverse_alter_of (from_sql_graph ad) k operation \<and>
                 (\<forall>sql_deps. k \<in> sql_deps \<longrightarrow>
                    (fst k, SQL_BLOB, snd k, InfoOp operation) \<in> make_deps latest' sql_deps))"
proof -
  from teardown_loop[OF assms, of latest] obtain ad' latest' new_steps where
    r: "for_loop (teardown_body changed_keys) keys (ad, latest) = Inr (ad', latest')"
       "generated_operations ad' = generated_operations ad @ new_steps"
       "map step_view new_steps =
             map (\<lambda>k. (fst k, ReverseAlterSQL, snd k,
                        reverse_sql (the (nodes (from_sql_graph ad) k)),
                        sql (the (nodes (from_sql_graph ad) k))))
               (filter (\<lambda>k. k \<in> changed_keys \<and>
                        truthy (reverse_sql (the (nodes (from_sql_graph ad) k)))) keys)"
    and l: "\<And>k. k \<in> set keys \<inter> changed_keys \<Longrightarrow>
                (\<exists>operation. latest' k = Some operation \<and>
                     reverse_alter_of (from_sql_graph ad) k operation)"
    by blast
  have "\<exists>operation. latest' k = Some operation \<and>
                 reverse_alter_of (from_sql_graph ad) k operation \<and>
                 (\<forall>sql_deps. k \<in> sql_deps \<longrightarrow>
                    (fst k, SQL_BLOB, snd k, InfoOp operation) \<in> make_deps latest' sql_deps)"
    if "k \<in> set keys \<inter> changed_keys" for k
  proof -
    from l[OF that] obtain operation where o: "latest' k = Some operation"
      "reverse_alter_of (from_sql_graph ad) k operation" by blast
    have "(fst k, SQL_BLOB, snd k, InfoOp operation) \<in> make_deps latest' sql_deps"
      if "k \<in> sql_deps" for sql_deps
      unfolding make_deps_def using that o(1) by force
    then show ?thesis using o by blast
  qed
  then show ?thesis using r by blast
qed

text \<open>
  C5 at the graph \<open>c5_from\<close>: \<open>top_books\<close> gets its step, \<open>top_authors\<close>, whose old
  reverse statement is empty, gets none and is recorded all the same.
\<close>

theorem teardown_pass_steps_witness:
  "\<exists>ad' latest' new_steps.
      for_loop (teardown_body {top_books, top_authors}) [top_authors, top_books] (c5_autodetector, Map.empty) =
        Inr (ad', latest') \<and>
      generated_operations ad' = new_steps \<and>
      map step_view new_steps =
        [(''test_app'', ReverseAlterSQL, ''top_books'', SqlText ''R1'', SqlText ''F1'')] \<and>
      (\<exists>operation. latest' top_authors = Some operation \<and>
         reverse_alter_of c5_from top_authors operation)"
proof -
  have h: "\<forall>k\<in>set [top_authors, top_books] \<inter> {top_books, top_authors}.
             k \<in> dom (nodes (from_sql_graph c5_autodetector)) \<and>
             k \<in> dom (node_map (from_sql_graph c5_autodetector))"
    by (simp add: c5_autodetector_def c5_from_def)
  have f: "from_sql_graph c5_autodetector = c5_from" "generated_operations c5_autodetector = []"
    by (simp_all add: c5_autodetector_def)
  have m: "map (\<lambda>k. (fst k, ReverseAlterSQL, snd k,
                        reverse_sql (the (nodes c5_from k)), sql (the (nodes c5_from k))))
               (filter (\<lambda>k. k \<in> {top_books, top_authors} \<and>
                        truthy (reverse_sql (the (nodes c5_from k)))) [top_authors, top_books]) =
           [(''test_app'', ReverseAlterSQL, ''top_books'', SqlText ''R1'', SqlText ''F1'')]"
    by (simp add: c5_from_def key_defs)
  from teardown_pass_steps[OF h, of Map.empty] show ?thesis
    unfolding f m by (auto simp: key_defs)
qed

text \<open>
  What planning leaves alone: whenever \<open>generate_changed_sql\<close> returns, both graphs
  have their constructs and declarations as before, and every node has its old
  parents and children and at most its own key more.
\<close>

lemma own_key_added_refl: "own_key_added g g"
  by (auto simp: own_key_added_def)

lemma own_key_added_trans:
  assumes "own_key_added g g1" "own_key_added g1 g2"
  shows "own_key_added g g2"
  unfolding own_key_added_def
proof (intro conjI allI impI)
  show "nodes g2 = nodes g" "dependencies g2 = dependencies g"
    "dom (node_map g2) = dom (node_map g)"
    using assms by (simp_all add: own_key_added_def)
next
  fix k n
  assume "node_map g k = Some n"
  with assms(1) obtain n1 where n1: "node_map g1 k = Some n1" "node_key n1 = node_key n"
    "parents n \<subseteq> parents n1" "parents n1 \<subseteq> insert k (parents n)"
    "children n \<subseteq> children n1" "children n1 \<subseteq> insert k (children n)"
    unfolding own_key_added_def by blast
  with assms(2) obtain n2 where n2: "node_map g2 k = Some n2" "node_key n2 = node_key n1"
    "parents n1 \<subseteq> parents n2" "parents n2 \<subseteq> insert k (parents n1)"
    "children n1 \<subseteq> children n2" "children n2 \<subseteq> insert k (children n1)"
    unfolding own_key_added_def by blast
  show "\<exists>n'. node_map g2 k = Some n' \<and> node_key n' = node_key n \<and>
            parents n \<subseteq> parents n' \<and> parents n' \<subseteq> insert k (parents n) \<and>
            children n \<subseteq> children n' \<and> children n' \<subseteq> insert k (children n)"
    using n1 n2 by auto
qed

lemma own_key_added_update_children:
  assumes "node_map g k = Some n"
  shows "own_key_added g (g\<lparr>node_map := (node_map g)(k \<mapsto> n\<lparr>children := insert k (children n)\<rparr>)\<rparr>)"
  using assms by (auto simp: own_key_added_def)

lemma own_key_added_update_parents:
  assumes "node_map g k = Some n"
  shows "own_key_added g (g\<lparr>node_map := (node_map g)(k \<mapsto> n\<lparr>parents := insert k (parents n)\<rparr>)\<rparr>)"
  using assms by (auto simp: own_key_added_def)

lemma teardown_body_frame:
  assumes "teardown_body changed_keys k (ad, latest) = Inr (ad', latest')"
  shows "own_key_added (from_sql_graph ad) (from_sql_graph ad') \<and> to_sql_graph ad' = to_sql_graph ad"
  using assms own_key_added_update_children[of "from_sql_graph ad" k]
  by (auto simp: teardown_body_def Let_def add_operation_def own_key_added_refl
      split: if_splits option.splits)

lemma rebuild_body_frame:
  assumes "rebuild_body changed_keys k (ad, latest) = Inr (ad', latest')"
  shows "own_key_added (to_sql_graph ad) (to_sql_graph ad') \<and> from_sql_graph ad' = from_sql_graph ad"
  using assms own_key_added_update_parents[of "to_sql_graph ad" k]
  by (auto simp: rebuild_body_def Let_def add_operation_def
      split: if_splits option.splits)

lemma delete_body_frame:
  assumes "delete_body k ad = Inr ad'"
  shows "from_sql_graph ad' = from_sql_graph ad \<and> to_sql_graph ad' = to_sql_graph ad"
  using assms
  by (auto simp: delete_body_def Let_def add_operation_def split: option.splits)

lemma teardown_loop_frame:
  "for_loop (teardown_body changed_keys) keys (ad, latest) = Inr (ad', latest') \<Longrightarrow>
     own_key_added (from_sql_graph ad) (from_sql_graph ad') \<and> to_sql_graph ad' = to_sql_graph ad"
proof (induction keys arbitrary: ad latest)
  case Nil
  then show ?case by (simp add: own_key_added_refl)
next
  case (Cons k keys)
  then obtain ad1 latest1 where b: "teardown_body changed_keys k (ad, latest) = Inr (ad1, latest1)"
    and l: "for_loop (teardown_body changed_keys) keys (ad1, latest1) = Inr (ad', latest')"
    by (auto split: sum.splits)
  from teardown_body_frame[OF b] Cons.IH[OF l] show ?case
    using own_key_added_trans by auto
qed

lemma rebuild_loop_frame:
  "for_loop (rebuild_body changed_keys) keys (ad, latest) = Inr (ad', latest') \<Longrightarrow>
     own_key_added (to_sql_graph ad) (to_sql_graph ad') \<and> from_sql_graph ad' = from_sql_graph ad"
proof (induction keys arbitrary: ad latest)
  case Nil
  then show ?case by (simp add: own_key_added_refl)
next
  case (Cons k keys)
  then obtain ad1 latest1 where b: "rebuild_body changed_keys k (ad, latest) = Inr (ad1, latest1)"
    and l: "for_loop (rebuild_body changed_keys) keys (ad1, latest1) = Inr (ad', latest')"
    by (auto split: sum.splits)
  from rebuild_body_frame[OF b] Cons.IH[OF l] show ?case
    using own_key_added_trans by auto
qed

lemma delete_loop_frame:
  "for_loop delete_body keys ad = Inr ad' \<Longrightarrow>
     from_sql_graph ad' = from_sql_graph ad \<and> to_sql_graph ad' = to_sql_graph ad"
proof (induction keys arbitrary: ad)
  case Nil
  then show ?case by simp
next
  case (Cons k keys)
  then obtain ad1 where b: "delete_body k ad = Inr ad1"
    and l: "for_loop delete_body keys ad1 = Inr ad'"
    by (auto split: sum.splits)
  from delete_body_frame[OF b] Cons.IH[OF l] show ?case by simp
qed

lemma generate_changed_sql_frame:
  assumes "generate_changed_sql anc desc order deleted_order ad = Inr ad'"
  shows "own_key_added (from_sql_graph ad) (from_sql_graph ad') \<and>
         own_key_added (to_sql_graph ad) (to_sql_graph ad')"
proof -
  from assms obtain keys ch ad1 l1 ad2 l2 where
    t: "for_loop (teardown_body ch) keys (ad, Map.empty) = Inr (ad1, l1)"
    and r: "for_loop (rebuild_body ch) (rev keys) (ad1, l1) = Inr (ad2, l2)"
    and d: "for_loop delete_body deleted_order ad2 = Inr ad'"
    by (auto simp: generate_changed_sql_def Let_def split: sum.splits prod.splits)
  from teardown_loop_frame[OF t] rebuild_loop_frame[OF r] delete_loop_frame[OF d]
  show ?thesis by simp
qed

lemma c2_changed: "changed_keys_of c2_from c2_to = {top_books}"
  by (auto simp: changed_keys_of_def c2_from_def c2_to_def)

lemma c2_sort:
  "sort_sql_changes only_self only_self c2_to [top_books] {} {top_books} = Inr ([top_books], {top_books})"
  by (simp add: sort_sql_changes_def sort_body_def only_self_def c2_to_def list_insert_def)

text \<open>
  C2 fails on the code. For the change of \<open>test_migration_change\<close> the plan is the
  \<open>ReverseAlterSQL\<close> step and the \<open>AlterSQL\<close> step, and the constructs of both
  graphs are as before. The node of \<open>top_books\<close> had no children in the \<open>from\<close> graph
  and no parents in the \<open>to\<close> graph; afterwards it is its own child in the \<open>from\<close>
  graph and its own parent in the \<open>to\<close> graph.
\<close>

theorem generate_changed_sql_mutates_graphs:
  "\<exists>ad'. generate_changed_sql only_self only_self [top_books] [] c2_autodetector = Inr ad' \<and>
     map step_view (generated_operations ad') =
       [(''test_app'', ReverseAlterSQL, ''top_books'', SqlText ''R1'', SqlText ''F1''),
        (''test_app'', AlterSQL, ''top_books'', SqlText ''F2'', SqlText ''R2'')] \<and>
     nodes (from_sql_graph ad') = nodes c2_from \<and> nodes (to_sql_graph ad') = nodes c2_to \<and>
     node_map c2_from top_books = Some \<lparr>node_key = top_books, children = {}, parents = {}\<rparr> \<and>
     node_map (from_sql_graph ad') top_books =
       Some \<lparr>node_key = top_books, children = {top_books}, parents = {}\<rparr> \<and>
     node_map c2_to top_books = Some \<lparr>node_key = top_books, children = {}, parents = {}\<rparr> \<and>
     node_map (to_sql_graph ad') top_books =
       Some \<lparr>node_key = top_books, children = {}, parents = {top_books}\<rparr>"
proof -
  have dn: "dom (nodes c2_to) - dom (nodes c2_from) = {}"
    by (simp add: c2_from_def c2_to_def)
  show ?thesis
    unfolding generate_changed_sql_def Let_def
    by (simp add: c2_autodetector_def dn c2_changed c2_sort)
       (simp add: teardown_body_def rebuild_body_def add_operation_def Let_def step_view_def
          c2_from_def c2_to_def Node_def top_books_def)
qed

section \<open>Properties of the dependency check\<close>

text \<open>
  C8. For a marker whose second component is \<open>SQL_BLOB\<close>, \<open>check_dependency\<close> holds
  exactly when the fourth component is a step and that step is the same object as the
  step that is checked; the host's rule \<open>super\<close> is not asked. For a marker whose
  second component is no \<open>SQLBlob\<close> the answer is the one of \<open>super\<close>.
\<close>

theorem check_dependency_identity:
  "(check_dependency super operation (app_label, SQL_BLOB, name, info) \<longleftrightarrow>
      (\<exists>recorded. info = InfoOp recorded \<and> oid recorded = oid operation)) \<and>
   (\<not> isinstance_SQLBlob domain \<longrightarrow>
      check_dependency super operation (app_label, domain, name, info) =
        super operation (app_label, domain, name, info))"
  by (cases info) (auto simp: check_dependency_def same_object_def)

text \<open>
  C8 at four markers: the recorded step itself satisfies its marker even when the
  host's rule says no; a step with the same fields but another identity does not, and
  neither does anything for a marker that records \<open>None\<close>, even when the host's rule
  says yes; a marker of the host is left to the host's rule.
\<close>

theorem check_dependency_identity_witness:
  "check_dependency (\<lambda>_ _. False) c8_step (''test_app'', SQL_BLOB, ''top_books'', InfoOp c8_step) \<and>
   \<not> check_dependency (\<lambda>_ _. True) (c8_step\<lparr>oid := 1\<rparr>) (''test_app'', SQL_BLOB, ''top_books'', InfoOp c8_step) \<and>
   \<not> check_dependency (\<lambda>_ _. True) c8_step (''test_app'', SQL_BLOB, ''top_books'', InfoNone) \<and>
   check_dependency (\<lambda>_ _. True) c8_step (''test_app'', HostDomain ''book'', ''rating'', InfoHost ''True'')"
  using check_dependency_identity[of "\<lambda>_ _. False" c8_step "''test_app''" "''top_books''" "InfoOp c8_step" "HostDomain ''book''"]
        check_dependency_identity[of "\<lambda>_ _. True" "c8_step\<lparr>oid := 1\<rparr>" "''test_app''" "''top_books''" "InfoOp c8_step" "HostDomain ''book''"]
        check_dependency_identity[of "\<lambda>_ _. True" c8_step "''test_app''" "''top_books''" "InfoNone" "HostDomain ''book''"]
        check_dependency_identity[of "\<lambda>_ _. True" c8_step "''test_app''" "''rating''" "InfoHost ''True''" "HostDomain ''book''"]
  by (simp add: c8_step_def)

end
